theory Spec2Isabelle
  imports Main
begin

section \<open>Data model\<close>

text \<open>
  The tables of the relational store, as \<^verbatim>\<open>src/lib/supabase/database.types.ts\<close> and the
  migrations under \<^verbatim>\<open>src/supabase/migrations\<close> declare them. A table is the list of its rows
  in insertion order. The \<^verbatim>\<open>created_at\<close> and \<^verbatim>\<open>updated_at\<close> columns carry wall-clock time and
  are left out. A primary key (\<^verbatim>\<open>UUID DEFAULT gen_random_uuid()\<close>) is a natural number; a
  \<^verbatim>\<open>DATE\<close> is its Julian day number, the integer PostgreSQL computes with for dates.
  Driver and shift ids always come from the lists the pages load from the \<^verbatim>\<open>drivers\<close> and
  \<^verbatim>\<open>shifts\<close> tables, so these two tables and the foreign keys into them are not modelled.
\<close>

type_synonym uuid = nat
type_synonym date = int

text \<open>
  \<^verbatim>\<open>hours DECIMAL(5,2)\<close> and \<^verbatim>\<open>ot_rate DECIMAL(3,2)\<close> are fixed-point numbers with two
  decimals: the model stores the number of hundredths, so 8 hours is \<open>dec 8 = 800\<close>
  and the rate 1.5 is \<open>150\<close>.
\<close>

type_synonym decimal = int

definition dec :: "int \<Rightarrow> decimal" where
  "dec n = 100 * n"

record schedule =
  s_id :: uuid
  s_driver_id :: uuid
  s_date :: date
  is_day_off :: bool
  is_annual_leave :: bool

record replacement =
  r_id :: uuid
  r_schedule_id :: uuid
  replacement_driver_id :: uuid
  r_shift_id :: uuid

datatype ot_type = Replacement | Extension | Special

record overtime_record =
  o_id :: uuid
  o_driver_id :: uuid
  o_date :: date
  hours :: decimal
  o_type :: ot_type
  ot_rate :: decimal

record pattern =
  p_id :: uuid
  p_driver_id :: uuid
  p_month :: int
  p_year :: int
  day_of_week :: int

record db =
  schedules :: "schedule list"
  replacements :: "replacement list"
  overtime_records :: "overtime_record list"
  driver_monthly_dayoff :: "pattern list"

definition empty_db :: db where
  "empty_db = \<lparr>schedules = [], replacements = [], overtime_records = [],
     driver_monthly_dayoff = []\<rparr>"

datatype error =
    MultipleRows | NoRows | UniqueViolation | CheckViolation | ForeignKeyViolation
  | NumericOverflow | NumericValueOutOfRange | DatetimeFieldOverflow | InvalidDatetimeFormat
  | RangeError

datatype toast = ToastSuccess | ToastError

section \<open>The storage layer\<close>

text \<open>
  \<^verbatim>\<open>gen_random_uuid()\<close> yields an id that no row of the table carries; the model takes the
  successor of the largest id in use.
\<close>

definition gen_random_uuid :: "uuid list \<Rightarrow> uuid" where
  "gen_random_uuid ids = Suc (fold max ids 0)"

text \<open>
  The query builder's \<^verbatim>\<open>.maybeSingle()\<close> answers \<^verbatim>\<open>{data: row, error: null}\<close> for one
  row, \<^verbatim>\<open>{data: null, error: null}\<close> for no row and \<^verbatim>\<open>{data: null, error}\<close> for several
  rows; \<^verbatim>\<open>.single()\<close> also answers an error for no row. A caller that destructures
  \<^verbatim>\<open>data\<close> only sees \<open>data_of\<close>.
\<close>

fun maybeSingle :: "'a list \<Rightarrow> error + 'a option" where
  "maybeSingle [] = Inr None"
| "maybeSingle [x] = Inr (Some x)"
| "maybeSingle (x # y # zs) = Inl MultipleRows"

fun single :: "'a list \<Rightarrow> error + 'a option" where
  "single [] = Inl NoRows"
| "single [x] = Inr (Some x)"
| "single (x # y # zs) = Inl MultipleRows"

fun data_of :: "error + 'a option \<Rightarrow> 'a option" where
  "data_of (Inl e) = None"
| "data_of (Inr d) = d"

text \<open>
  A write answers \<^verbatim>\<open>{error}\<close> and never throws; a handler that does not look at
  \<^verbatim>\<open>error\<close> goes on with the table as the failed statement left it, which is
  \<open>state_of\<close>.
\<close>

fun state_of :: "'s \<Rightarrow> error + 's \<Rightarrow> 's" where
  "state_of s (Inl e) = s"
| "state_of s (Inr s') = s'"

subsection \<open>replacements\<close>

text \<open>
  \<^verbatim>\<open>schedule_id UUID NOT NULL REFERENCES public.schedules(id) ON DELETE CASCADE\<close>: an
  insert whose schedule does not exist is refused.
\<close>

definition insert_replacement :: "db \<Rightarrow> uuid \<Rightarrow> uuid \<Rightarrow> uuid \<Rightarrow> error + db" where
  "insert_replacement d schedule_id replacement_driver shift_id =
     (if schedule_id \<in> set (map s_id (schedules d))
      then Inr (d\<lparr>replacements := replacements d @
             [\<lparr>r_id = gen_random_uuid (map r_id (replacements d)),
               r_schedule_id = schedule_id,
               replacement_driver_id = replacement_driver,
               r_shift_id = shift_id\<rparr>]\<rparr>)
      else Inl ForeignKeyViolation)"

definition update_replacement_driver :: "db \<Rightarrow> uuid \<Rightarrow> uuid \<Rightarrow> db" where
  "update_replacement_driver d rid new_driver =
     d\<lparr>replacements :=
         map (\<lambda>r. if r_id r = rid then r\<lparr>replacement_driver_id := new_driver\<rparr> else r)
           (replacements d)\<rparr>"

subsection \<open>overtime\_records\<close>

text \<open>
  \<^verbatim>\<open>DECIMAL(5,2)\<close> holds absolute values below 1000, \<^verbatim>\<open>DECIMAL(3,2)\<close> below 10; a value
  outside is refused with a numeric overflow.
\<close>

definition fits_decimal_5_2 :: "decimal \<Rightarrow> bool" where
  "fits_decimal_5_2 h \<longleftrightarrow> - dec 1000 < h \<and> h < dec 1000"

definition insert_overtime ::
  "db \<Rightarrow> uuid \<Rightarrow> date \<Rightarrow> decimal \<Rightarrow> ot_type \<Rightarrow> decimal \<Rightarrow> error + db" where
  "insert_overtime d driver dt h ty rate =
     (if fits_decimal_5_2 h \<and> - dec 10 < rate \<and> rate < dec 10
      then Inr (d\<lparr>overtime_records := overtime_records d @
             [\<lparr>o_id = gen_random_uuid (map o_id (overtime_records d)),
               o_driver_id = driver, o_date = dt, hours = h, o_type = ty,
               ot_rate = rate\<rparr>]\<rparr>)
      else Inl NumericOverflow)"

definition update_overtime_hours :: "db \<Rightarrow> uuid \<Rightarrow> decimal \<Rightarrow> error + db" where
  "update_overtime_hours d oid h =
     (if fits_decimal_5_2 h \<or> oid \<notin> set (map o_id (overtime_records d))
      then Inr (d\<lparr>overtime_records :=
             map (\<lambda>r. if o_id r = oid then r\<lparr>hours := h\<rparr> else r) (overtime_records d)\<rparr>)
      else Inl NumericOverflow)"

definition delete_overtime :: "db \<Rightarrow> uuid \<Rightarrow> date \<Rightarrow> ot_type \<Rightarrow> db" where
  "delete_overtime d driver dt ty =
     d\<lparr>overtime_records :=
         filter (\<lambda>r. \<not> (o_driver_id r = driver \<and> o_date r = dt \<and> o_type r = ty))
           (overtime_records d)\<rparr>"

section \<open>The day-schedule dialog: replacements and overtime\<close>

text \<open>
  \<^verbatim>\<open>src/components/day-schedule-dialog.tsx\<close>. Both handlers compute
  \<^verbatim>\<open>dateStr = date.toISOString().split("T")[0]\<close> from the dialog's date; the model takes
  \<open>dateStr\<close> as an argument.

  The overtime accrual, which both handlers spell out in the same words:
  \<^verbatim>\<open>
      const { data: existingOT } = await supabase
        .from("overtime_records").select()
        .eq("driver_id", replacementDriverId).eq("date", dateStr)
        .maybeSingle()
      if (existingOT) {
        await supabase.from("overtime_records")
          .update({ hours: existingOT.hours + 8, ... }).eq("id", existingOT.id)
      } else {
        await supabase.from("overtime_records").insert({
          driver_id: replacementDriverId, date: dateStr,
          hours: 8, ot_type: "replacement", ot_rate: 1.5 })
      }
  \<close>
\<close>

definition existingOT :: "db \<Rightarrow> uuid \<Rightarrow> date \<Rightarrow> overtime_record option" where
  "existingOT d driver dateStr =
     data_of (maybeSingle
       (filter (\<lambda>r. o_driver_id r = driver \<and> o_date r = dateStr) (overtime_records d)))"

definition accrue_overtime :: "db \<Rightarrow> uuid \<Rightarrow> date \<Rightarrow> db" where
  "accrue_overtime d driver dateStr =
     (case existingOT d driver dateStr of
        Some ot \<Rightarrow> state_of d (update_overtime_hours d (o_id ot) (hours ot + dec 8))
      | None \<Rightarrow> state_of d (insert_overtime d driver dateStr (dec 8) Replacement 150))"

text \<open>
  \<^verbatim>\<open>handleAssignReplacement(scheduleId, replacementDriverId, driverId, shiftId)\<close>: the
  insert into \<^verbatim>\<open>replacements\<close> is awaited with \<^verbatim>\<open>const { data: replacement } = ...\<close>, its
  error is not read, and the accrual follows. Nothing in the \<^verbatim>\<open>try\<close> block throws on a
  storage error, so the success toast is shown.
\<close>

definition handleAssignReplacement ::
  "db \<Rightarrow> date \<Rightarrow> uuid \<Rightarrow> uuid \<Rightarrow> uuid \<Rightarrow> uuid \<Rightarrow> toast \<times> db" where
  "handleAssignReplacement d dateStr scheduleId replacementDriverId driverId shiftId =
     (let d1 = state_of d (insert_replacement d scheduleId replacementDriverId shiftId)
      in (ToastSuccess, accrue_overtime d1 replacementDriverId dateStr))"

text \<open>
  \<^verbatim>\<open>handleUpdateReplacement(replacementId, newDriverId, driverId, scheduleId)\<close>:
  \<^verbatim>\<open>
      const { data: oldReplacement } = await supabase.from("replacements")
        .select("replacement_driver_id, shift_id").eq("id", replacementId).single()
      if (!oldReplacement) throw new Error("Could not find current replacement")
      await supabase.from("replacements")
        .update({ replacement_driver_id: newDriverId, ... }).eq("id", replacementId)
      // Remove OT record for old driver
      await supabase.from("overtime_records").delete()
        .eq("driver_id", oldReplacement.replacement_driver_id)
        .eq("date", dateStr).eq("ot_type", "replacement")
  \<close>
  and then the accrual for \<^verbatim>\<open>newDriverId\<close>.
\<close>

definition handleUpdateReplacement ::
  "db \<Rightarrow> date \<Rightarrow> uuid \<Rightarrow> uuid \<Rightarrow> uuid \<Rightarrow> uuid \<Rightarrow> toast \<times> db" where
  "handleUpdateReplacement d dateStr replacementId newDriverId driverId scheduleId =
     (case data_of (single (filter (\<lambda>r. r_id r = replacementId) (replacements d))) of
        None \<Rightarrow> (ToastError, d)
      | Some oldReplacement \<Rightarrow>
          (let d1 = update_replacement_driver d replacementId newDriverId;
               d2 = delete_overtime d1 (replacement_driver_id oldReplacement) dateStr
                      Replacement
           in (ToastSuccess, accrue_overtime d2 newDriverId dateStr)))"

text \<open>The overtime records of one driver on one date, and those of one type among them.\<close>

definition overtime_of :: "db \<Rightarrow> uuid \<Rightarrow> date \<Rightarrow> overtime_record list" where
  "overtime_of d driver dt =
     filter (\<lambda>r. o_driver_id r = driver \<and> o_date r = dt) (overtime_records d)"

definition replacement_overtime_of :: "db \<Rightarrow> uuid \<Rightarrow> date \<Rightarrow> overtime_record list" where
  "replacement_overtime_of d driver dt =
     filter (\<lambda>r. o_type r = Replacement) (overtime_of d driver dt)"

section \<open>Dates\<close>

text \<open>
  PostgreSQL's calendar. \<^verbatim>\<open>date2j(year, month, day)\<close> is the Julian day number of a
  proleptic Gregorian date whose year is counted astronomically (year 0 is 1 BC); the
  server computes it with truncating division on a year that is positive after the
  shift by 4800, where truncating and flooring agree. The day of the week of a Julian
  day is \<^verbatim>\<open>(day + 1) % 7\<close>, Sunday being 0. \<^verbatim>\<open>isleap\<close> and \<^verbatim>\<open>day_tab\<close> are the server's
  leap-year rule and table of month lengths.
\<close>

definition date2j :: "int \<Rightarrow> int \<Rightarrow> int \<Rightarrow> date" where
  "date2j y m dd =
     (let month = (if m > 2 then m + 1 else m + 13);
          year = (if m > 2 then y + 4800 else y + 4799);
          century = year div 100
      in year * 365 - 32167 + (year div 4 - century + century div 4)
           + 7834 * month div 256 + dd)"

definition j2day :: "date \<Rightarrow> int" where
  "j2day j = (j + 1) mod 7"

definition isleap :: "int \<Rightarrow> bool" where
  "isleap y \<longleftrightarrow> y mod 4 = 0 \<and> (y mod 100 \<noteq> 0 \<or> y mod 400 = 0)"

definition day_tab :: "int \<Rightarrow> int \<Rightarrow> int" where
  "day_tab y m =
     (if m = 2 then (if isleap y then 29 else 28)
      else if m = 4 \<or> m = 6 \<or> m = 9 \<or> m = 11 then 30 else 31)"

text \<open>
  A column of type \<^verbatim>\<open>INTEGER\<close> holds 32-bit values; a number outside is refused
  (\<^verbatim>\<open>22003\<close>), in a filter as in a written value.
\<close>

definition int4 :: "int \<Rightarrow> bool" where
  "int4 n \<longleftrightarrow> - 2147483648 \<le> n \<and> n \<le> 2147483647"

text \<open>
  \<^verbatim>\<open>make_date(year, month, day)\<close>: a negative year is a year BC and there is no year 0,
  so year \<open>- n\<close> is the astronomical year \<open>1 - n\<close>; the month must be 1 to 12 and the day
  must exist in the month; the date must lie in the range of the type, from Julian day 0
  (24 November 4714 BC) to the end of the year 5874897. Anything else raises.
\<close>

definition astronomical :: "int \<Rightarrow> int" where
  "astronomical y = (if y < 0 then y + 1 else y)"

definition IS_VALID_JULIAN :: "int \<Rightarrow> int \<Rightarrow> bool" where
  "IS_VALID_JULIAN y m \<longleftrightarrow>
     (y > - 4713 \<or> (y = - 4713 \<and> m \<ge> 11)) \<and> (y < 5874898 \<or> (y = 5874898 \<and> m < 6))"

definition DATE_END_JULIAN :: int where
  "DATE_END_JULIAN = 2147483494"

definition TIMESTAMP_END_JULIAN :: int where
  "TIMESTAMP_END_JULIAN = 109203528"

definition make_date :: "int \<Rightarrow> int \<Rightarrow> int \<Rightarrow> error + date" where
  "make_date y m dd =
     (let year = astronomical y
      in if y = 0 \<or> m < 1 \<or> 12 < m \<or> dd < 1 \<or> day_tab year m < dd
         then Inl DatetimeFieldOverflow
         else if \<not> IS_VALID_JULIAN year m then Inl DatetimeFieldOverflow
         else if date2j year m dd < 0 \<or> DATE_END_JULIAN \<le> date2j year m dd
         then Inl DatetimeFieldOverflow
         else Inr (date2j year m dd))"

text \<open>
  \<^verbatim>\<open>last_day := (curr_date + interval '1 month - 1 day')::date\<close> with \<^verbatim>\<open>curr_date\<close> the first
  of month \<open>m\<close> of the astronomical year \<open>y\<close>. The date is cast to a timestamp, whose type
  ends with the year 294276 (\<^verbatim>\<open>date out of range for timestamp\<close>); the interval is one
  month and minus one day; the month is added first and gives the first of the next
  month, which must be a timestamp again (\<^verbatim>\<open>timestamp out of range\<close>); then the day is
  taken off.
\<close>

definition first_of_next_month :: "int \<Rightarrow> int \<Rightarrow> date" where
  "first_of_next_month y m = (if m = 12 then date2j (y + 1) 1 1 else date2j y (m + 1) 1)"

definition last_day_of_month :: "int \<Rightarrow> int \<Rightarrow> date \<Rightarrow> error + date" where
  "last_day_of_month y m curr_date =
     (if TIMESTAMP_END_JULIAN \<le> curr_date then Inl DatetimeFieldOverflow
      else if TIMESTAMP_END_JULIAN \<le> first_of_next_month y m then Inl DatetimeFieldOverflow
      else Inr (first_of_next_month y m - 1))"

text \<open>
  \<^verbatim>\<open>EXTRACT(DOW FROM curr_date AT TIME ZONE 'Asia/Bangkok')\<close>: the date is cast to a
  timestamp with time zone, midnight in the session's zone; \<^verbatim>\<open>AT TIME ZONE\<close> turns it
  into the wall-clock timestamp in Bangkok, which is 7 hours ahead of UTC since
  1 April 1920 and was 6:42:04 ahead before; the day of the week is read from that.
  Timestamps are seconds, counted from the midnight that starts Julian day 0. The
  session's zone is UTC, the setting of the hosted database. Inside the trigger's loop
  every date lies before the first of the next month, which the interval arithmetic has
  accepted as a timestamp, so these casts do not raise.
\<close>

definition session_utc_offset :: int where
  "session_utc_offset = 0"

definition date_to_timestamptz :: "date \<Rightarrow> int" where
  "date_to_timestamptz dt = dt * 86400 - session_utc_offset"

definition bangkok_utc_offset :: "int \<Rightarrow> int" where
  "bangkok_utc_offset ts = (if ts < date2j 1920 3 31 * 86400 + 62276 then 24124 else 25200)"

definition at_time_zone_bangkok :: "int \<Rightarrow> int" where
  "at_time_zone_bangkok ts = ts + bangkok_utc_offset ts"

definition extract_dow :: "int \<Rightarrow> int" where
  "extract_dow ts = j2day (ts div 86400)"

definition local_dow :: "date \<Rightarrow> int" where
  "local_dow curr_date = extract_dow (at_time_zone_bangkok (date_to_timestamptz curr_date))"

text \<open>
  The browser's \<^verbatim>\<open>new Date(year, monthIndex, day)\<close> is midnight of a local calendar day;
  a year from 0 to 99 stands for 1900 to 1999, a month index of 12 is January of the
  next year and day 0 is the day before the first. Instants are minutes, counted from the
  UTC midnight that starts Julian day 0; \<open>tz\<close> is the browser's time zone in minutes east
  of UTC. An instant more than 100 000 000 days away from 1 January 1970 is no time
  value: the date is invalid and \<^verbatim>\<open>toISOString()\<close> throws a \<^verbatim>\<open>RangeError\<close>. Otherwise
  \<^verbatim>\<open>toISOString()\<close> prints the instant in UTC and \<^verbatim>\<open>.split("T")[0]\<close> keeps its date.
\<close>

definition js_year :: "int \<Rightarrow> int" where
  "js_year y = (if 0 \<le> y \<and> y \<le> 99 then 1900 + y else y)"

definition js_Date :: "int \<Rightarrow> int \<Rightarrow> int \<Rightarrow> int \<Rightarrow> int" where
  "js_Date tz y monthIndex dd =
     (date2j (js_year y + monthIndex div 12) (monthIndex mod 12 + 1) 1 + (dd - 1)) * 1440 - tz"

definition valid_time :: "int \<Rightarrow> bool" where
  "valid_time t \<longleftrightarrow> \<bar>t - date2j 1970 1 1 * 1440\<bar> \<le> 100000000 * 1440"

definition toISOString_date :: "int \<Rightarrow> error + date" where
  "toISOString_date t = (if \<not> valid_time t then Inl RangeError else Inr (t div 1440))"

text \<open>
  The printed date is a filter value for a column of type \<^verbatim>\<open>date\<close>, which the store reads
  with \<^verbatim>\<open>date_in\<close>. A year from 0000 to 9999 is printed with four digits; a year outside
  is printed with a sign and six digits, which is no date for the store, and there is no
  year 0000 in its calendar.
\<close>

definition date_in :: "date \<Rightarrow> error + date" where
  "date_in printed =
     (if printed < date2j 0 1 1 \<or> date2j 10000 1 1 \<le> printed then Inl InvalidDatetimeFormat
      else if printed < date2j 1 1 1 then Inl DatetimeFieldOverflow
      else Inr printed)"

section \<open>Schedules and the expansion trigger\<close>

text \<open>
  Modelled from the spec: the migration that creates \<^verbatim>\<open>schedules\<close> is not among the
  sources. The spec gives the table the uniqueness constraint
  \<^verbatim>\<open>schedules(driver_id, date)\<close>, which the trigger's
  \<^verbatim>\<open>ON CONFLICT (driver_id, date)\<close> needs in order to be accepted; a plain insert that
  collides on the key is refused.
\<close>

definition insert_schedule :: "db \<Rightarrow> uuid \<Rightarrow> date \<Rightarrow> bool \<Rightarrow> bool \<Rightarrow> error + db" where
  "insert_schedule d driver dt off al =
     (if (driver, dt) \<in> set (map (\<lambda>r. (s_driver_id r, s_date r)) (schedules d))
      then Inl UniqueViolation
      else Inr (d\<lparr>schedules := schedules d @
             [\<lparr>s_id = gen_random_uuid (map s_id (schedules d)), s_driver_id = driver,
               s_date = dt, is_day_off = off, is_annual_leave = al\<rparr>]\<rparr>))"

definition update_schedule_flags :: "db \<Rightarrow> uuid \<Rightarrow> bool \<Rightarrow> bool \<Rightarrow> db" where
  "update_schedule_flags d sid off al =
     d\<lparr>schedules :=
         map (\<lambda>r. if s_id r = sid then r\<lparr>is_day_off := off, is_annual_leave := al\<rparr> else r)
           (schedules d)\<rparr>"

text \<open>
  A delete from \<^verbatim>\<open>schedules\<close> takes the replacements of the deleted rows with it
  (\<^verbatim>\<open>ON DELETE CASCADE\<close>).
\<close>

definition delete_schedules :: "(schedule \<Rightarrow> bool) \<Rightarrow> db \<Rightarrow> db" where
  "delete_schedules P d =
     d\<lparr>schedules := filter (\<lambda>r. \<not> P r) (schedules d),
       replacements :=
         filter (\<lambda>r. r_schedule_id r \<notin> set (map s_id (filter P (schedules d))))
           (replacements d)\<rparr>"

text \<open>
  \<^verbatim>\<open>
            INSERT INTO public.schedules (driver_id, date, is_day_off)
            VALUES (NEW.driver_id, curr_date, true)
            ON CONFLICT (driver_id, date)
            DO UPDATE SET is_day_off = true, updated_at = NOW();
  \<close>
  A new row takes the column default for \<^verbatim>\<open>is_annual_leave\<close>, which the insert type
  of \<^verbatim>\<open>database.types.ts\<close> leaves optional; it is taken to be false.
\<close>

definition upsert_day_off :: "uuid \<Rightarrow> date \<Rightarrow> db \<Rightarrow> db" where
  "upsert_day_off driver dt d =
     (if (driver, dt) \<in> set (map (\<lambda>r. (s_driver_id r, s_date r)) (schedules d))
      then d\<lparr>schedules :=
             map (\<lambda>r. if s_driver_id r = driver \<and> s_date r = dt
                      then r\<lparr>is_day_off := True\<rparr> else r) (schedules d)\<rparr>
      else d\<lparr>schedules := schedules d @
             [\<lparr>s_id = gen_random_uuid (map s_id (schedules d)), s_driver_id = driver,
               s_date = dt, is_day_off = True, is_annual_leave = False\<rparr>]\<rparr>)"

text \<open>
  The trigger function \<^verbatim>\<open>create_monthly_dayoff_schedules\<close> of
  \<^verbatim>\<open>20240323000000_recreate_driver_monthly_dayoff.sql\<close>, the migration in force:
  \<^verbatim>\<open>
    curr_date := make_date(NEW.year, NEW.month, 1);
    last_day := (curr_date + interval '1 month - 1 day')::date;
    DELETE FROM public.schedules
    WHERE driver_id = NEW.driver_id AND date >= curr_date AND date <= last_day
    AND is_day_off = true;
    WHILE curr_date <= last_day LOOP
        local_dow := EXTRACT(DOW FROM curr_date AT TIME ZONE 'Asia/Bangkok');
        IF local_dow = NEW.day_of_week THEN ... END IF;
        curr_date := curr_date + interval '1 day';
    END LOOP;
  \<close>
\<close>

function dayoff_loop :: "pattern \<Rightarrow> date \<Rightarrow> date \<Rightarrow> db \<Rightarrow> db" where
  "dayoff_loop NEW curr_date last_day d =
     (if curr_date \<le> last_day
      then dayoff_loop NEW (curr_date + 1) last_day
             (if local_dow curr_date = day_of_week NEW
              then upsert_day_off (p_driver_id NEW) curr_date d else d)
      else d)"
  by pat_completeness auto
termination
  by (relation "measure (\<lambda>(NEW, curr_date, last_day, d). nat (last_day + 1 - curr_date))") auto

declare dayoff_loop.simps [simp del]

text \<open>
  An error raised by \<^verbatim>\<open>make_date\<close> or by the interval arithmetic ends the trigger, and
  with it the statement that fired it, before anything is written.
\<close>

definition create_monthly_dayoff_schedules :: "pattern \<Rightarrow> db \<Rightarrow> error + db" where
  "create_monthly_dayoff_schedules NEW d =
     (case make_date (p_year NEW) (p_month NEW) 1 of
        Inl e \<Rightarrow> Inl e
      | Inr curr_date \<Rightarrow>
          (case last_day_of_month (astronomical (p_year NEW)) (p_month NEW) curr_date of
             Inl e \<Rightarrow> Inl e
           | Inr last_day \<Rightarrow>
               Inr (dayoff_loop NEW curr_date last_day
                      (delete_schedules
                         (\<lambda>r. s_driver_id r = p_driver_id NEW \<and> curr_date \<le> s_date r
                              \<and> s_date r \<le> last_day \<and> is_day_off r) d))))"

text \<open>The trigger runs for each row of the statement; the first error ends the statement.\<close>

fun run_triggers :: "pattern list \<Rightarrow> db \<Rightarrow> error + db" where
  "run_triggers [] d = Inr d"
| "run_triggers (NEW # rows) d =
     (case create_monthly_dayoff_schedules NEW d of
        Inl e \<Rightarrow> Inl e
      | Inr d' \<Rightarrow> run_triggers rows d')"

subsection \<open>driver\_monthly\_dayoff\<close>

text \<open>
  \<^verbatim>\<open>month INTEGER NOT NULL CHECK (month >= 1 AND month <= 12)\<close>, \<^verbatim>\<open>year INTEGER NOT NULL\<close>,
  \<^verbatim>\<open>day_of_week INTEGER NOT NULL CHECK (day_of_week >= 0 AND day_of_week <= 6)\<close>,
  \<^verbatim>\<open>UNIQUE(driver_id, month, year)\<close>, and the trigger
  \<^verbatim>\<open>AFTER INSERT OR UPDATE ... FOR EACH ROW\<close>, which runs inside the statement: a
  statement whose trigger raises writes nothing.
\<close>

definition insert_pattern :: "db \<Rightarrow> uuid \<Rightarrow> int \<Rightarrow> int \<Rightarrow> int \<Rightarrow> error + db" where
  "insert_pattern d driver month year dow =
     (if \<not> (int4 month \<and> int4 year \<and> int4 dow) then Inl NumericValueOutOfRange
      else if \<not> (1 \<le> month \<and> month \<le> 12 \<and> 0 \<le> dow \<and> dow \<le> 6) then Inl CheckViolation
      else if (driver, month, year) \<in>
            set (map (\<lambda>p. (p_driver_id p, p_month p, p_year p)) (driver_monthly_dayoff d))
      then Inl UniqueViolation
      else
        (let NEW = \<lparr>p_id = gen_random_uuid (map p_id (driver_monthly_dayoff d)),
                    p_driver_id = driver, p_month = month, p_year = year,
                    day_of_week = dow\<rparr>
         in create_monthly_dayoff_schedules NEW
              (d\<lparr>driver_monthly_dayoff := driver_monthly_dayoff d @ [NEW]\<rparr>)))"

definition update_pattern :: "db \<Rightarrow> uuid \<Rightarrow> int \<Rightarrow> error + db" where
  "update_pattern d pid dow =
     (if \<not> int4 dow then Inl NumericValueOutOfRange
      else if \<not> (0 \<le> dow \<and> dow \<le> 6) \<and> pid \<in> set (map p_id (driver_monthly_dayoff d))
      then Inl CheckViolation
      else run_triggers
             (map (\<lambda>p. p\<lparr>day_of_week := dow\<rparr>)
                (filter (\<lambda>p. p_id p = pid) (driver_monthly_dayoff d)))
             (d\<lparr>driver_monthly_dayoff :=
                  map (\<lambda>p. if p_id p = pid then p\<lparr>day_of_week := dow\<rparr> else p)
                    (driver_monthly_dayoff d)\<rparr>))"

section \<open>Marking a day off or annual leave\<close>

text \<open>
  \<^verbatim>\<open>handleScheduleUpdate(driverId, type)\<close> of the day-schedule dialog:
  \<^verbatim>\<open>
      const { data: existingSchedule } = await supabase.from("schedules")
        .select("id, is_day_off, is_annual_leave")
        .eq("driver_id", driverId).eq("date", dateStr).maybeSingle()
      if (existingSchedule) {
        const updates = {
          is_day_off: type === "day_off" ? !existingSchedule.is_day_off : false,
          is_annual_leave: type === "annual_leave" ? !existingSchedule.is_annual_leave : false,
          ... }
        await supabase.from("schedules").update(updates).eq("id", existingSchedule.id)
      } else {
        ... .insert({ driver_id: driverId, date: dateStr,
            is_day_off: type === "day_off", is_annual_leave: type === "annual_leave" })
      }
  \<close>
\<close>

datatype schedule_type = day_off | annual_leave

definition handleScheduleUpdate :: "db \<Rightarrow> date \<Rightarrow> uuid \<Rightarrow> schedule_type \<Rightarrow> toast \<times> db" where
  "handleScheduleUpdate d dateStr driverId type =
     (case data_of (maybeSingle
             (filter (\<lambda>r. s_driver_id r = driverId \<and> s_date r = dateStr) (schedules d))) of
        Some existingSchedule \<Rightarrow>
          (ToastSuccess,
           update_schedule_flags d (s_id existingSchedule)
             (if type = day_off then \<not> is_day_off existingSchedule else False)
             (if type = annual_leave then \<not> is_annual_leave existingSchedule else False))
      | None \<Rightarrow>
          (ToastSuccess,
           state_of d (insert_schedule d driverId dateStr (type = day_off)
                         (type = annual_leave))))"

section \<open>The Set Pattern form\<close>

text \<open>
  \<^verbatim>\<open>DAYS_OF_WEEK\<close> of the form (\<^verbatim>\<open>src/unnamed/part_004\<close>, lines 112 to 120), as pairs of
  \<^verbatim>\<open>value\<close> and \<^verbatim>\<open>label\<close>. The Select shows the labels and stores the value of the chosen
  item in \<^verbatim>\<open>selectedDayOfWeek\<close>.
\<close>

definition DAYS_OF_WEEK :: "(string \<times> string) list" where
  "DAYS_OF_WEEK =
     [(''6'', ''Sunday''), (''0'', ''Monday''), (''1'', ''Tuesday''), (''2'', ''Wednesday''),
      (''3'', ''Thursday''), (''4'', ''Friday''), (''5'', ''Saturday'')]"

definition select_day :: "string \<Rightarrow> string" where
  "select_day label = (case filter (\<lambda>day. snd day = label) DAYS_OF_WEEK of
                         [] \<Rightarrow> [] | day # _ \<Rightarrow> fst day)"

text \<open>
  \<^verbatim>\<open>parseInt(string)\<close>: leading white space is skipped, a sign is read, a prefix
  \<^verbatim>\<open>0x\<close> or \<^verbatim>\<open>0X\<close> selects base 16 and base 10 is the default; the digits up to the first
  other character are read, and when there is none the result is \<^verbatim>\<open>NaN\<close>, here \<open>None\<close>.
  White space, among the 256 characters of the model, is the tab, the line feed, the
  vertical tab, the form feed, the carriage return, the space and the no-break space.
  The result is a double: beyond \<open>2 ^ 53\<close> the
  browser rounds it, and every number of that size is outside the 32 bits of the columns
  it is sent to, rounded or not.
\<close>

definition is_white_space :: "char \<Rightarrow> bool" where
  "is_white_space c \<longleftrightarrow>
     c \<in> set [CHR 0x09, CHR 0x0A, CHR 0x0B, CHR 0x0C, CHR 0x0D, CHR '' '', CHR 0xA0]"

definition digit :: "int \<Rightarrow> char \<Rightarrow> int option" where
  "digit radix c =
     (if radix = 16
      then map_of (zip ''0123456789abcdef'' [0..15] @ zip ''ABCDEF'' [10..15]) c
      else map_of (zip ''0123456789'' [0..9]) c)"

fun parse_digits :: "int \<Rightarrow> int \<Rightarrow> string \<Rightarrow> int" where
  "parse_digits radix acc [] = acc"
| "parse_digits radix acc (c # cs) =
     (case digit radix c of None \<Rightarrow> acc | Some v \<Rightarrow> parse_digits radix (radix * acc + v) cs)"

definition parse_radix :: "int \<Rightarrow> string \<Rightarrow> int option" where
  "parse_radix radix s =
     (case s of [] \<Rightarrow> None
      | c # cs \<Rightarrow> (case digit radix c of None \<Rightarrow> None
                   | Some v \<Rightarrow> Some (parse_digits radix v cs)))"

definition parse_unsigned :: "string \<Rightarrow> int option" where
  "parse_unsigned s =
     (if take 2 s = ''0x'' \<or> take 2 s = ''0X'' then parse_radix 16 (drop 2 s)
      else parse_radix 10 s)"

definition parseInt :: "string \<Rightarrow> int option" where
  "parseInt string =
     (case dropWhile is_white_space string of
        [] \<Rightarrow> None
      | c # cs \<Rightarrow>
          if c = CHR ''-'' then map_option uminus (parse_unsigned cs)
          else if c = CHR ''+'' then parse_unsigned cs
          else parse_unsigned (c # cs))"

text \<open>
  \<^verbatim>\<open>const dayOfWeek = selectedDayOfWeek === "7" ? 0 : parseInt(selectedDayOfWeek)
  // Convert Sunday from 7 to 0\<close>
\<close>

definition dayOfWeek :: "string \<Rightarrow> int option" where
  "dayOfWeek selectedDayOfWeek =
     (if selectedDayOfWeek = ''7'' then Some 0 else parseInt selectedDayOfWeek)"

text \<open>
  The storage part of \<^verbatim>\<open>handleSubmit\<close> (\<^verbatim>\<open>src/unnamed/part_004\<close>, lines 162 to 205): the
  pattern of the driver, month and year is looked up with \<^verbatim>\<open>.maybeSingle()\<close> and a fetch
  error is thrown, which a month or year outside the column's 32 bits also is; an
  existing pattern has its \<^verbatim>\<open>day_of_week\<close> updated through its id, otherwise a row is
  inserted; the error of the operation is thrown.
\<close>

definition set_pattern :: "db \<Rightarrow> uuid \<Rightarrow> int \<Rightarrow> int \<Rightarrow> int \<Rightarrow> error + db" where
  "set_pattern d driver month year dow =
     (if \<not> (int4 month \<and> int4 year) then Inl NumericValueOutOfRange
      else
        (case maybeSingle
                (filter (\<lambda>p. p_driver_id p = driver \<and> p_month p = month \<and> p_year p = year)
                   (driver_monthly_dayoff d)) of
           Inl fetchError \<Rightarrow> Inl fetchError
         | Inr (Some existingPattern) \<Rightarrow> update_pattern d (p_id existingPattern) dow
         | Inr None \<Rightarrow> insert_pattern d driver month year dow))"

text \<open>
  \<^verbatim>\<open>handleSubmit\<close>: the four selections must be non-empty (the driver's is \<open>None\<close> when
  empty); a \<^verbatim>\<open>NaN\<close> among the parsed numbers makes a request the store refuses.
\<close>

definition handleSubmit ::
  "db \<Rightarrow> uuid option \<Rightarrow> string \<Rightarrow> string \<Rightarrow> string \<Rightarrow> toast \<times> db" where
  "handleSubmit d selectedDriver selectedMonth selectedYear selectedDayOfWeek =
     (case selectedDriver of
        None \<Rightarrow> (ToastError, d)
      | Some driver \<Rightarrow>
          if selectedMonth = [] \<or> selectedYear = [] \<or> selectedDayOfWeek = []
          then (ToastError, d)
          else (case (parseInt selectedMonth, parseInt selectedYear,
                      dayOfWeek selectedDayOfWeek) of
                  (Some month, Some year, Some dow) \<Rightarrow>
                    (case set_pattern d driver month year dow of
                       Inl e \<Rightarrow> (ToastError, d)
                     | Inr d' \<Rightarrow> (ToastSuccess, d'))
                | _ \<Rightarrow> (ToastError, d)))"

section \<open>Deleting a pattern\<close>

text \<open>
  \<^verbatim>\<open>handleDelete(patternId)\<close> of \<^verbatim>\<open>src/components/driver-monthly-dayoff-list.tsx\<close>:
  \<^verbatim>\<open>
      const { data: pattern, error: patternError } = await supabase
        .from("driver_monthly_dayoff").select("*").eq("id", patternId).single()
      if (patternError) throw patternError
      // Delete all schedule entries for this driver in the specified month
      const startDate = new Date(pattern.year, pattern.month - 1, 1)
      const endDate = new Date(pattern.year, pattern.month, 0)
      const { error: scheduleError } = await supabase.from("schedules").delete()
        .eq("driver_id", pattern.driver_id).eq("is_day_off", true)
        .gte("date", startDate.toISOString().split("T")[0])
        .lte("date", endDate.toISOString().split("T")[0])
      if (scheduleError) throw scheduleError
      const { error: deleteError } = await supabase
        .from("driver_monthly_dayoff").delete().eq("id", patternId)
  \<close>
  The handler runs in the browser, whose time zone is \<open>tz\<close> minutes east of UTC. An
  exception of \<^verbatim>\<open>toISOString()\<close> and an error of the store for a bound it cannot read end
  the handler before anything is deleted.
\<close>

definition handleDelete :: "int \<Rightarrow> db \<Rightarrow> uuid \<Rightarrow> toast \<times> db" where
  "handleDelete tz d patternId =
     (case data_of (single (filter (\<lambda>p. p_id p = patternId) (driver_monthly_dayoff d))) of
        None \<Rightarrow> (ToastError, d)
      | Some pattern \<Rightarrow>
          (let startDate = js_Date tz (p_year pattern) (p_month pattern - 1) 1;
               endDate = js_Date tz (p_year pattern) (p_month pattern) 0
           in case (toISOString_date startDate, toISOString_date endDate) of
                (Inr gte, Inr lte) \<Rightarrow>
                  (case (date_in gte, date_in lte) of
                     (Inr lo, Inr hi) \<Rightarrow>
                       (let d1 = delete_schedules
                                   (\<lambda>r. s_driver_id r = p_driver_id pattern \<and> is_day_off r
                                        \<and> lo \<le> s_date r \<and> s_date r \<le> hi) d
                        in (ToastSuccess,
                            d1\<lparr>driver_monthly_dayoff :=
                                 filter (\<lambda>p. p_id p \<noteq> patternId)
                                   (driver_monthly_dayoff d1)\<rparr>))
                   | _ \<Rightarrow> (ToastError, d))
              | _ \<Rightarrow> (ToastError, d)))"

section \<open>Reachable states and the civil calendar\<close>

text \<open>The states the handlers can produce from the empty store.\<close>

inductive reachable :: "db \<Rightarrow> bool" where
  init: "reachable empty_db"
| mark: "reachable d \<Longrightarrow> reachable (snd (handleScheduleUpdate d dateStr driverId type))"
| submit: "reachable d \<Longrightarrow>
    reachable (snd (handleSubmit d selectedDriver selectedMonth selectedYear
                      selectedDayOfWeek))"
| delete: "reachable d \<Longrightarrow> reachable (snd (handleDelete tz d patternId))"
| assign: "reachable d \<Longrightarrow>
    reachable (snd (handleAssignReplacement d dateStr scheduleId replacementDriverId
                      driverId shiftId))"
| update: "reachable d \<Longrightarrow>
    reachable (snd (handleUpdateReplacement d dateStr replacementId newDriverId driverId
                      scheduleId))"

text \<open>
  The civil calendar of the specification, in the store's numbering of years (negative
  for BC, no year 0): the length of a month, the date of a day, the dates of a month
  that fall on a given day of the week (0 is Sunday), and the years whose months the
  store's timestamp type holds in full, 4713 BC to 294275.
\<close>

definition days_in_month :: "int \<Rightarrow> int \<Rightarrow> int" where
  "days_in_month y m = day_tab (astronomical y) m"

definition civil_date :: "int \<Rightarrow> int \<Rightarrow> int \<Rightarrow> date" where
  "civil_date y m dd = date2j (astronomical y) m dd"

definition weekday_dates :: "int \<Rightarrow> int \<Rightarrow> int \<Rightarrow> date list" where
  "weekday_dates y m dow =
     filter (\<lambda>dt. j2day dt = dow) (map (civil_date y m) [1..days_in_month y m])"

definition in_month :: "int \<Rightarrow> int \<Rightarrow> date \<Rightarrow> bool" where
  "in_month y m dt \<longleftrightarrow> civil_date y m 1 \<le> dt \<and> dt \<le> civil_date y m (days_in_month y m)"

definition year_in_range :: "int \<Rightarrow> bool" where
  "year_in_range y \<longleftrightarrow> - 4713 \<le> y \<and> y \<noteq> 0 \<and> y \<le> 294275"

definition driver_month_rows :: "db \<Rightarrow> uuid \<Rightarrow> int \<Rightarrow> int \<Rightarrow> schedule list" where
  "driver_month_rows d driver y m =
     filter (\<lambda>r. s_driver_id r = driver \<and> in_month y m (s_date r)) (schedules d)"

definition day_off_rows :: "db \<Rightarrow> uuid \<Rightarrow> int \<Rightarrow> int \<Rightarrow> schedule list" where
  "day_off_rows d driver y m = filter is_day_off (driver_month_rows d driver y m)"

definition pattern_rows :: "db \<Rightarrow> uuid \<Rightarrow> int \<Rightarrow> int \<Rightarrow> pattern list" where
  "pattern_rows d driver y m =
     filter (\<lambda>p. p_driver_id p = driver \<and> p_month p = m \<and> p_year p = y)
       (driver_monthly_dayoff d)"

text \<open>The uniqueness constraints of the store.\<close>

definition schedule_keys :: "db \<Rightarrow> (uuid \<times> date) list" where
  "schedule_keys d = map (\<lambda>r. (s_driver_id r, s_date r)) (schedules d)"

definition schedules_unique :: "db \<Rightarrow> bool" where
  "schedules_unique d \<longleftrightarrow> distinct (schedule_keys d)"

definition schedule_ids_unique :: "db \<Rightarrow> bool" where
  "schedule_ids_unique d \<longleftrightarrow> distinct (map s_id (schedules d))"

definition patterns_unique :: "db \<Rightarrow> bool" where
  "patterns_unique d \<longleftrightarrow>
     distinct (map p_id (driver_monthly_dayoff d)) \<and>
     distinct (map (\<lambda>p. (p_driver_id p, p_month p, p_year p)) (driver_monthly_dayoff d))"

text \<open>
  What the tables say about the days of the drivers: the driver, the date and the
  day-off flag of every schedule row.
\<close>

definition schedule_flags :: "db \<Rightarrow> (uuid \<times> date \<times> bool) set" where
  "schedule_flags d = set (map (\<lambda>r. (s_driver_id r, s_date r, is_day_off r)) (schedules d))"

text \<open>Day off and annual leave exclude each other on every row.\<close>

definition flags_exclusive :: "db \<Rightarrow> bool" where
  "flags_exclusive d \<longleftrightarrow>
     filter (\<lambda>r. is_day_off r \<and> is_annual_leave r) (schedules d) = []"

section \<open>Scenarios\<close>

text \<open>
  Concrete runs of the handlers, used to evaluate the model. Driver 1 is the absent
  driver, drivers 2 and 3 replace; February 2024 starts on a Thursday and has 29 days.
\<close>

definition feb1 :: date where
  "feb1 = civil_date 2024 2 1"

definition bangkok :: int where
  "bangkok = 420"

text \<open>Driver 1 is marked off on 1 February and driver 2 covers both shifts.\<close>

definition marked_off :: db where
  "marked_off = snd (handleScheduleUpdate empty_db feb1 1 day_off)"

definition covered_once :: db where
  "covered_once = snd (handleAssignReplacement marked_off feb1 1 2 1 1)"

definition covered_twice :: db where
  "covered_twice = snd (handleAssignReplacement covered_once feb1 1 2 1 2)"

text \<open>The replacement of the first shift is moved from driver 2 to driver 3.\<close>

definition moved_first_shift :: db where
  "moved_first_shift = snd (handleUpdateReplacement covered_twice feb1 1 3 1 1)"


text \<open>Driver 1 is on annual leave on 1 February, then gets a pattern for February.\<close>

definition on_leave :: db where
  "on_leave = snd (handleScheduleUpdate empty_db feb1 1 annual_leave)"

definition leave_then_pattern :: db where
  "leave_then_pattern = snd (handleSubmit on_leave (Some 1) ''2'' ''2024'' ''4'')"

text \<open>The pattern with stored day 4 for driver 1 in February 2024, on the empty store.\<close>

definition thursday_pattern :: db where
  "thursday_pattern = snd (handleSubmit empty_db (Some 1) ''2'' ''2024'' ''4'')"

definition sunday_selected :: db where
  "sunday_selected =
     snd (handleSubmit empty_db (Some 1) ''2'' ''2024'' (select_day ''Sunday''))"

section \<open>Fresh identifiers\<close>

lemma fold_max_ge: "(a::nat) \<le> fold max xs a \<and> (\<forall>x \<in> set xs. x \<le> fold max xs a)"
proof (induction xs arbitrary: a)
  case Nil
  show ?case by simp
next
  case (Cons y ys)
  have "max y a \<le> fold max ys (max y a)" using Cons.IH by blast
  moreover have "\<forall>x \<in> set ys. x \<le> fold max ys (max y a)" using Cons.IH by blast
  ultimately show ?case by auto
qed

lemma gen_random_uuid_fresh: "gen_random_uuid ids \<notin> set ids"
proof
  assume "gen_random_uuid ids \<in> set ids"
  then have "gen_random_uuid ids \<le> fold max ids 0" using fold_max_ge by blast
  then show False by (simp add: gen_random_uuid_def)
qed

section \<open>Overtime accrual\<close>

lemma overtime_records_insert_replacement:
  "overtime_records (state_of d (insert_replacement d s r sh)) = overtime_records d"
  by (simp add: insert_replacement_def)

lemma overtime_of_insert_replacement:
  "overtime_of (state_of d (insert_replacement d s r sh)) b dt = overtime_of d b dt"
  by (simp add: overtime_of_def overtime_records_insert_replacement)

lemma accrue_none:
  assumes "overtime_of d b dt = []"
  shows "overtime_records (accrue_overtime d b dt) = overtime_records d @
     [\<lparr>o_id = gen_random_uuid (map o_id (overtime_records d)),
       o_driver_id = b, o_date = dt, hours = dec 8, o_type = Replacement, ot_rate = 150\<rparr>]"
  using assms
  by (simp add: accrue_overtime_def existingOT_def overtime_of_def insert_overtime_def
      fits_decimal_5_2_def dec_def)

lemma accrue_one:
  assumes "overtime_of d b dt = [ot]" and "fits_decimal_5_2 (hours ot + dec 8)"
  shows "overtime_records (accrue_overtime d b dt) =
     map (\<lambda>r. if o_id r = o_id ot then r\<lparr>hours := hours ot + dec 8\<rparr> else r)
       (overtime_records d)"
  using assms
  by (simp add: accrue_overtime_def existingOT_def overtime_of_def update_overtime_hours_def)

lemma filter_map_update_hours:
  "filter (\<lambda>r. o_driver_id r = b \<and> o_date r = dt)
     (map (\<lambda>r. if o_id r = i then r\<lparr>hours := h\<rparr> else r) xs) =
   map (\<lambda>r. if o_id r = i then r\<lparr>hours := h\<rparr> else r)
     (filter (\<lambda>r. o_driver_id r = b \<and> o_date r = dt) xs)"
  by (induction xs) auto

lemma overtime_of_accrue_one:
  assumes "overtime_of d b dt = [ot]" and "fits_decimal_5_2 (hours ot + dec 8)"
  shows "overtime_of (accrue_overtime d b dt) b dt = [ot\<lparr>hours := hours ot + dec 8\<rparr>]"
proof -
  have "overtime_of (accrue_overtime d b dt) b dt =
      map (\<lambda>r. if o_id r = o_id ot then r\<lparr>hours := hours ot + dec 8\<rparr> else r)
        (overtime_of d b dt)"
    unfolding overtime_of_def accrue_one [OF assms] filter_map_update_hours
    by (simp add: overtime_of_def)
  then show ?thesis using assms(1) by simp
qed

lemma overtime_of_accrue_none:
  assumes "overtime_of d b dt = []"
  shows "overtime_of (accrue_overtime d b dt) b dt =
     [\<lparr>o_id = gen_random_uuid (map o_id (overtime_records d)),
       o_driver_id = b, o_date = dt, hours = dec 8, o_type = Replacement, ot_rate = 150\<rparr>]"
  using assms accrue_none [OF assms] by (simp add: overtime_of_def)

text \<open>
  C2. When the replacement driver has no overtime record for the date, assigning the
  driver to two shifts of the same absent driver on that date leaves exactly one
  overtime record for the replacement driver and the date; it holds 16 hours, of type
  replacement at rate 1.5.
\<close>

theorem assign_twice_one_record_16_hours:
  assumes "overtime_of d b dt = []"
  shows "map (\<lambda>r. (hours r, o_type r, ot_rate r))
           (overtime_of
              (snd (handleAssignReplacement
                      (snd (handleAssignReplacement d dt s b a sh1)) dt s b a sh2)) b dt)
         = [(dec 16, Replacement, 150)]"
proof -
  let ?d1 = "state_of d (insert_replacement d s b sh1)"
  let ?d2 = "accrue_overtime ?d1 b dt"
  let ?d3 = "state_of ?d2 (insert_replacement ?d2 s b sh2)"
  let ?new = "\<lparr>o_id = gen_random_uuid (map o_id (overtime_records ?d1)),
       o_driver_id = b, o_date = dt, hours = dec 8, o_type = Replacement, ot_rate = 150\<rparr>"
  have e1: "overtime_of ?d1 b dt = []"
    using assms by (simp add: overtime_of_insert_replacement)
  have "overtime_of ?d2 b dt = [?new]"
    by (rule overtime_of_accrue_none [OF e1])
  then have e3: "overtime_of ?d3 b dt = [?new]"
    by (simp add: overtime_of_insert_replacement)
  have fits: "fits_decimal_5_2 (hours ?new + dec 8)"
    by (simp add: fits_decimal_5_2_def dec_def)
  have "overtime_of (accrue_overtime ?d3 b dt) b dt = [?new\<lparr>hours := hours ?new + dec 8\<rparr>]"
    by (rule overtime_of_accrue_one [OF e3 fits])
  then show ?thesis
    by (simp add: handleAssignReplacement_def Let_def dec_def)
qed

theorem assign_twice_one_record_16_hours_witness:
  "overtime_of marked_off 2 feb1 = [] \<and>
   map (\<lambda>r. (hours r, o_type r, ot_rate r)) (overtime_of covered_twice 2 feb1)
     = [(dec 16, Replacement, 150)]"
proof -
  have h: "overtime_of marked_off 2 feb1 = []" by code_simp
  have "map (\<lambda>r. (hours r, o_type r, ot_rate r))
          (overtime_of
             (snd (handleAssignReplacement
                     (snd (handleAssignReplacement marked_off feb1 1 2 1 1)) feb1 1 2 1 2))
             2 feb1)
        = [(dec 16, Replacement, 150)]"
    by (rule assign_twice_one_record_16_hours [OF h])
  then show ?thesis using h by (simp add: covered_twice_def covered_once_def)
qed

text \<open>
  C10. Assign Replacement is not atomic: whenever the store refuses the insert of the
  replacement row, the handler still shows the success toast, the replacements table is
  as before, and the accrual has run: a replacement driver without an overtime record
  for the date has got one with 8 hours, and a single existing record has 8 hours more.
\<close>

theorem assign_accrues_after_refused_insert:
  assumes "insert_replacement d s b sh = Inl e"
  shows "fst (handleAssignReplacement d dt s b a sh) = ToastSuccess \<and>
         replacements (snd (handleAssignReplacement d dt s b a sh)) = replacements d \<and>
         (overtime_of d b dt = [] \<longrightarrow>
            map (\<lambda>r. (hours r, o_type r, ot_rate r))
              (overtime_of (snd (handleAssignReplacement d dt s b a sh)) b dt)
            = [(dec 8, Replacement, 150)]) \<and>
         (\<forall>ot. overtime_of d b dt = [ot] \<and> fits_decimal_5_2 (hours ot + dec 8) \<longrightarrow>
            overtime_of (snd (handleAssignReplacement d dt s b a sh)) b dt
            = [ot\<lparr>hours := hours ot + dec 8\<rparr>])"
proof -
  have res: "snd (handleAssignReplacement d dt s b a sh) = accrue_overtime d b dt"
    using assms by (simp add: handleAssignReplacement_def)
  have reps: "replacements (accrue_overtime d b dt) = replacements d"
    by (simp add: accrue_overtime_def update_overtime_hours_def insert_overtime_def
        split: option.splits)
  have none: "overtime_of d b dt = [] \<Longrightarrow>
      map (\<lambda>r. (hours r, o_type r, ot_rate r)) (overtime_of (accrue_overtime d b dt) b dt)
      = [(dec 8, Replacement, 150)]"
    by (simp add: overtime_of_accrue_none)
  have one: "\<And>ot. overtime_of d b dt = [ot] \<Longrightarrow> fits_decimal_5_2 (hours ot + dec 8) \<Longrightarrow>
      overtime_of (accrue_overtime d b dt) b dt = [ot\<lparr>hours := hours ot + dec 8\<rparr>]"
    by (rule overtime_of_accrue_one)
  show ?thesis
    unfolding res using reps none one by (simp add: handleAssignReplacement_def)
qed

theorem assign_accrues_after_refused_insert_witness:
  "insert_replacement empty_db 7 2 1 = Inl ForeignKeyViolation \<and>
   replacements (snd (handleAssignReplacement empty_db feb1 7 2 1 1)) = [] \<and>
   map (\<lambda>r. (hours r, o_type r, ot_rate r))
     (overtime_of (snd (handleAssignReplacement empty_db feb1 7 2 1 1)) 2 feb1)
     = [(dec 8, Replacement, 150)]"
proof -
  have h: "insert_replacement empty_db 7 2 1 = Inl ForeignKeyViolation" by code_simp
  have e: "overtime_of empty_db 2 feb1 = []" by code_simp
  have r: "replacements empty_db = []" by code_simp
  note t = assign_accrues_after_refused_insert [OF h, of feb1 1]
  from t have "replacements (snd (handleAssignReplacement empty_db feb1 7 2 1 1)) = replacements empty_db"
    by (rule conjunct1 [OF conjunct2])
  moreover from t e have "map (\<lambda>r. (hours r, o_type r, ot_rate r))
     (overtime_of (snd (handleAssignReplacement empty_db feb1 7 2 1 1)) 2 feb1)
     = [(dec 8, Replacement, 150)]"
    by blast
  ultimately show ?thesis using h r by simp
qed




text \<open>
  C3 asks Update Replacement to take exactly 8 hours off the old replacement driver's
  record. Here driver 2 covers both shifts of driver 1 on 1 February and holds one record
  of 16 hours; moving the first shift to driver 3 leaves driver 2 with the second shift
  and with no overtime record at all, where 8 hours should remain. Driver 3 gets 8 hours.
\<close>

theorem update_replacement_deletes_merged_record:
  "map (\<lambda>r. (o_driver_id r, hours r, o_type r)) (overtime_records covered_twice)
     = [(2, dec 16, Replacement)] \<and>
   map (\<lambda>r. (r_id r, replacement_driver_id r, r_shift_id r)) (replacements covered_twice)
     = [(1, 2, 1), (2, 2, 2)] \<and>
   map (\<lambda>r. (r_id r, replacement_driver_id r, r_shift_id r)) (replacements moved_first_shift)
     = [(1, 3, 1), (2, 2, 2)] \<and>
   overtime_of moved_first_shift 2 feb1 = [] \<and>
   map (\<lambda>r. (o_driver_id r, hours r, o_type r)) (overtime_records moved_first_shift)
     = [(3, dec 8, Replacement)]"
  by code_simp

section \<open>The calendar\<close>

lemma div_pred:
  assumes "0 < (n::int)"
  shows "(y - 1) div n = (if y mod n = 0 then y div n - 1 else y div n)"
proof (cases "y mod n = 0")
  case True
  have e: "y - 1 = n * (y div n - 1) + (n - 1)"
    using True mult_div_mod_eq [of n y] by (simp add: algebra_simps)
  have "(y - 1) div n = y div n - 1"
    by (rule int_div_pos_eq [OF e]) (use assms in simp_all)
  then show ?thesis using True by simp
next
  case False
  have r: "0 < y mod n" using False assms pos_mod_sign [of n y] by linarith
  have e: "y - 1 = n * (y div n) + (y mod n - 1)"
    using mult_div_mod_eq [of n y] by simp
  have "(y - 1) div n = y div n"
    by (rule int_div_pos_eq [OF e]) (use r pos_mod_bound [OF assms, of y] in simp_all)
  then show ?thesis using False by simp
qed

lemma div_shift:
  assumes "0 < (n::int)"
  shows "(y - 1 + c * n) div n = (if y mod n = 0 then y div n + c - 1 else y div n + c)"
proof -
  have "(y - 1 + c * n) div n = c + (y - 1) div n"
    by (rule div_mult_self1) (use assms in simp)
  then show ?thesis using div_pred [OF assms, of y] by simp
qed

lemma mod_400_100: "(y::int) mod 400 = 0 \<Longrightarrow> y mod 100 = 0"
proof -
  assume "y mod 400 = 0"
  then have "400 dvd y" by (simp add: mod_eq_0_iff_dvd)
  moreover have "(100::int) dvd 400" by simp
  ultimately have "100 dvd y" by (rule dvd_trans [rotated])
  then show ?thesis by (simp add: mod_eq_0_iff_dvd)
qed

lemma mod_100_4: "(y::int) mod 100 = 0 \<Longrightarrow> y mod 4 = 0"
proof -
  assume "y mod 100 = 0"
  then have "100 dvd y" by (simp add: mod_eq_0_iff_dvd)
  moreover have "(4::int) dvd 100" by simp
  ultimately have "4 dvd y" by (rule dvd_trans [rotated])
  then show ?thesis by (simp add: mod_eq_0_iff_dvd)
qed

lemma leap_count:
  fixes A B C :: int
  assumes "p400 \<Longrightarrow> p100" "p100 \<Longrightarrow> p4"
  shows "(A + 1200) - (B + 48) + (C + 12)
     - ((if p4 then A + 1200 - 1 else A + 1200) - (if p100 then B + 48 - 1 else B + 48)
        + (if p400 then C + 12 - 1 else C + 12))
     = (if p4 \<and> (\<not> p100 \<or> p400) then 1 else 0)"
  using assms by (cases p4; cases p100; cases p400; simp)

lemma leap_diff:
  "(y + 4800) div 4 - (y + 4800) div 100 + (y + 4800) div 100 div 4
   - ((y + 4799) div 4 - (y + 4799) div 100 + (y + 4799) div 100 div 4)
   = (if isleap y then 1 else 0)" for y :: int
proof -
  have q: "(y + 4800) div 100 div 4 = (y + 4800) div 400"
         "(y + 4799) div 100 div 4 = (y + 4799) div 400"
    by (simp_all add: zdiv_zmult2_eq [symmetric])
  have a: "(y + 4800) div 4 = y div 4 + 1200" "(y + 4800) div 100 = y div 100 + 48"
          "(y + 4800) div 400 = y div 400 + 12"
    by simp_all
  have e: "y + 4799 = y - 1 + 1200 * 4" "y + 4799 = y - 1 + 48 * 100"
    "y + 4799 = y - 1 + 12 * 400" by simp_all
  have b4: "(y + 4799) div 4 = (if y mod 4 = 0 then y div 4 + 1200 - 1 else y div 4 + 1200)"
    unfolding e(1) by (rule div_shift) simp
  have b100: "(y + 4799) div 100 = (if y mod 100 = 0 then y div 100 + 48 - 1 else y div 100 + 48)"
    unfolding e(2) by (rule div_shift) simp
  have b400: "(y + 4799) div 400 = (if y mod 400 = 0 then y div 400 + 12 - 1 else y div 400 + 12)"
    unfolding e(3) by (rule div_shift) simp
  show ?thesis
    unfolding q unfolding a b4 b100 b400 isleap_def
    by (rule leap_count) (fact mod_400_100 mod_100_4)+
qed


lemma month_cases:
  assumes "1 \<le> (m::int)" "m \<le> 12"
  shows "m \<in> {1, 2, 3, 4, 5, 6, 7, 8, 9, 10, 11, 12}"
proof -
  have "m \<in> set [1..12]" using assms by simp
  then show ?thesis by (simp add: upto_rec1)
qed

lemma date2j_day: "date2j y m dd = date2j y m 1 + (dd - 1)"
  by (simp add: date2j_def Let_def)

lemma last_day_of_february: "first_of_next_month y 2 - 1 = date2j y 2 (day_tab y 2)"
proof -
  have "date2j y 3 1 - 1 - date2j y 2 (if isleap y then 29 else 28)
      = (y + 4800) div 4 - (y + 4800) div 100 + (y + 4800) div 100 div 4
        - ((y + 4799) div 4 - (y + 4799) div 100 + (y + 4799) div 100 div 4)
        - (if isleap y then 1 else 0)"
    by (simp add: date2j_def Let_def)
  then have "date2j y 3 1 - 1 - date2j y 2 (if isleap y then 29 else 28) = 0"
    unfolding leap_diff by simp
  then show ?thesis by (simp add: first_of_next_month_def day_tab_def)
qed

lemma last_day_eq:
  assumes "1 \<le> m" "m \<le> 12"
  shows "first_of_next_month y m - 1 = date2j y m (day_tab y m)"
proof -
  consider "m = 2" | "m = 12" | "m \<in> {1, 3, 4, 5, 6, 7, 8, 9, 10, 11}"
    using month_cases [OF assms] by blast
  then show ?thesis
  proof cases
    case 1
    then show ?thesis by (simp add: last_day_of_february)
  next
    case 2
    then show ?thesis
      by (simp add: first_of_next_month_def date2j_def day_tab_def Let_def
          add.commute [of 4800 y])
  next
    case 3
    then show ?thesis
      by (elim insertE emptyE)
        (simp_all add: first_of_next_month_def date2j_def day_tab_def Let_def)
  qed
qed

lemma day_tab_pos: "1 \<le> day_tab y m"
  by (simp add: day_tab_def)

lemma local_dow_eq: "local_dow dt = j2day dt"
proof -
  have "(dt * 86400 + c) div 86400 = dt" if "0 \<le> c" "c < 86400" for c :: int
    by (rule int_div_pos_eq [of _ _ _ c]) (use that in simp_all)
  then have "(dt * 86400 + bangkok_utc_offset (dt * 86400)) div 86400 = dt"
    by (simp add: bangkok_utc_offset_def)
  then show ?thesis
    by (simp add: local_dow_def extract_dow_def at_time_zone_bangkok_def
        date_to_timestamptz_def session_utc_offset_def)
qed

section \<open>The range of the date and timestamp types\<close>

lemma div_bounds:
  assumes "0 < (n::int)"
  shows "n * (a div n) \<le> a" and "a < n * (a div n) + n"
proof -
  have "a = n * (a div n) + a mod n" by simp
  moreover have "0 \<le> a mod n" "a mod n < n" using assms by simp_all
  ultimately show "n * (a div n) \<le> a" and "a < n * (a div n) + n" by linarith+
qed

lemma pos_4: "(0::int) < 4" and pos_100: "(0::int) < 100" and pos_256: "(0::int) < 256"
  by simp_all

lemma julian_lower:
  fixes Y a c q t M :: int
  assumes "Y < 4 * a + 4" "100 * c \<le> Y" "c < 4 * q + 4" "7834 * M < 256 * t + 256"
    and "88 \<le> Y \<and> 4 \<le> M \<or> 87 \<le> Y \<and> 14 \<le> M"
  shows "0 \<le> Y * 365 - 32167 + (a - c + q) + t + 1"
  using assms by linarith

lemma julian_upper:
  fixes Y a c q t M :: int
  assumes "4 * a \<le> Y" "Y < 100 * c + 100" "4 * q \<le> c" "256 * t \<le> 7834 * M"
    and "Y \<le> 299076 \<and> M \<le> 13 \<or> Y \<le> 299075 \<and> M \<le> 15"
  shows "Y * 365 - 32167 + (a - c + q) + t + 1 < 109203528"
  using assms by linarith

lemma date2j_lower:
  assumes "- 4712 \<le> y" "1 \<le> m" "m \<le> 12"
  shows "0 \<le> date2j y m 1"
proof (cases "m > 2")
  case True
  let ?Y = "y + 4800" and ?M = "m + 1"
  have "0 \<le> ?Y * 365 - 32167 + (?Y div 4 - ?Y div 100 + ?Y div 100 div 4)
      + 7834 * ?M div 256 + 1"
  proof (rule julian_lower [of ?Y _ _ _ ?M])
    show "?Y < 4 * (?Y div 4) + 4" by (rule div_bounds(2) [OF pos_4])
    show "100 * (?Y div 100) \<le> ?Y" by (rule div_bounds(1) [OF pos_100])
    show "?Y div 100 < 4 * (?Y div 100 div 4) + 4" by (rule div_bounds(2) [OF pos_4])
    show "7834 * ?M < 256 * (7834 * ?M div 256) + 256" by (rule div_bounds(2) [OF pos_256])
    show "88 \<le> ?Y \<and> 4 \<le> ?M \<or> 87 \<le> ?Y \<and> 14 \<le> ?M" using assms True by linarith
  qed
  then show ?thesis by (simp only: date2j_def Let_def True if_True)
next
  case False
  let ?Y = "y + 4799" and ?M = "m + 13"
  have "0 \<le> ?Y * 365 - 32167 + (?Y div 4 - ?Y div 100 + ?Y div 100 div 4)
      + 7834 * ?M div 256 + 1"
  proof (rule julian_lower [of ?Y _ _ _ ?M])
    show "?Y < 4 * (?Y div 4) + 4" by (rule div_bounds(2) [OF pos_4])
    show "100 * (?Y div 100) \<le> ?Y" by (rule div_bounds(1) [OF pos_100])
    show "?Y div 100 < 4 * (?Y div 100 div 4) + 4" by (rule div_bounds(2) [OF pos_4])
    show "7834 * ?M < 256 * (7834 * ?M div 256) + 256" by (rule div_bounds(2) [OF pos_256])
    show "88 \<le> ?Y \<and> 4 \<le> ?M \<or> 87 \<le> ?Y \<and> 14 \<le> ?M" using assms False by linarith
  qed
  then show ?thesis by (simp only: date2j_def Let_def False if_False)
qed

lemma date2j_upper:
  assumes "y \<le> 294276" "1 \<le> m" "m \<le> 12"
  shows "date2j y m 1 < TIMESTAMP_END_JULIAN"
proof (cases "m > 2")
  case True
  let ?Y = "y + 4800" and ?M = "m + 1"
  have "?Y * 365 - 32167 + (?Y div 4 - ?Y div 100 + ?Y div 100 div 4)
      + 7834 * ?M div 256 + 1 < 109203528"
  proof (rule julian_upper [of _ ?Y _ _ _ ?M])
    show "4 * (?Y div 4) \<le> ?Y" by (rule div_bounds(1) [OF pos_4])
    show "?Y < 100 * (?Y div 100) + 100" by (rule div_bounds(2) [OF pos_100])
    show "4 * (?Y div 100 div 4) \<le> ?Y div 100" by (rule div_bounds(1) [OF pos_4])
    show "256 * (7834 * ?M div 256) \<le> 7834 * ?M" by (rule div_bounds(1) [OF pos_256])
    show "?Y \<le> 299076 \<and> ?M \<le> 13 \<or> ?Y \<le> 299075 \<and> ?M \<le> 15" using assms True by linarith
  qed
  then show ?thesis by (simp only: date2j_def Let_def True if_True TIMESTAMP_END_JULIAN_def)
next
  case False
  let ?Y = "y + 4799" and ?M = "m + 13"
  have "?Y * 365 - 32167 + (?Y div 4 - ?Y div 100 + ?Y div 100 div 4)
      + 7834 * ?M div 256 + 1 < 109203528"
  proof (rule julian_upper [of _ ?Y _ _ _ ?M])
    show "4 * (?Y div 4) \<le> ?Y" by (rule div_bounds(1) [OF pos_4])
    show "?Y < 100 * (?Y div 100) + 100" by (rule div_bounds(2) [OF pos_100])
    show "4 * (?Y div 100 div 4) \<le> ?Y div 100" by (rule div_bounds(1) [OF pos_4])
    show "256 * (7834 * ?M div 256) \<le> 7834 * ?M" by (rule div_bounds(1) [OF pos_256])
    show "?Y \<le> 299076 \<and> ?M \<le> 13 \<or> ?Y \<le> 299075 \<and> ?M \<le> 15" using assms False by linarith
  qed
  then show ?thesis by (simp only: date2j_def Let_def False if_False TIMESTAMP_END_JULIAN_def)
qed

lemma first_of_next_month_upper:
  assumes "y \<le> 294275" "1 \<le> m" "m \<le> 12"
  shows "first_of_next_month y m < TIMESTAMP_END_JULIAN"
proof (cases "m = 12")
  case True
  then show ?thesis
    using date2j_upper [of "y + 1" 1] assms by (simp add: first_of_next_month_def)
next
  case False
  then show ?thesis
    using date2j_upper [of y "m + 1"] assms by (simp add: first_of_next_month_def)
qed

lemma astronomical_range:
  assumes "year_in_range y"
  shows "- 4712 \<le> astronomical y" "astronomical y \<le> 294275"
  using assms by (auto simp: year_in_range_def astronomical_def)

text \<open>In a year of the range the trigger's two date computations succeed.\<close>

lemma make_date_first:
  assumes "year_in_range y" "1 \<le> m" "m \<le> 12"
  shows "make_date y m 1 = Inr (civil_date y m 1)"
proof -
  note r = astronomical_range [OF assms(1)]
  have lo: "0 \<le> date2j (astronomical y) m 1"
    by (rule date2j_lower [OF r(1) assms(2,3)])
  have "date2j (astronomical y) m 1 < TIMESTAMP_END_JULIAN"
    using date2j_upper [of "astronomical y" m] r(2) assms(2,3) by simp
  then have hi: "date2j (astronomical y) m 1 < DATE_END_JULIAN"
    by (simp add: TIMESTAMP_END_JULIAN_def DATE_END_JULIAN_def)
  have v: "IS_VALID_JULIAN (astronomical y) m"
    using r by (simp add: IS_VALID_JULIAN_def)
  have z: "y \<noteq> 0" using assms(1) by (simp add: year_in_range_def)
  show ?thesis
    using lo hi v z assms(2,3) day_tab_pos [of "astronomical y" m]
    by (simp add: make_date_def civil_date_def Let_def)
qed

lemma last_day_of_month_last:
  assumes "year_in_range y" "1 \<le> m" "m \<le> 12"
  shows "last_day_of_month (astronomical y) m (civil_date y m 1) =
         Inr (civil_date y m (days_in_month y m))"
proof -
  note r = astronomical_range [OF assms(1)]
  have a: "civil_date y m 1 < TIMESTAMP_END_JULIAN"
    using date2j_upper [of "astronomical y" m] r(2) assms(2,3) by (simp add: civil_date_def)
  have b: "first_of_next_month (astronomical y) m < TIMESTAMP_END_JULIAN"
    by (rule first_of_next_month_upper [OF r(2) assms(2,3)])
  show ?thesis
    using a b last_day_eq [OF assms(2,3), of "astronomical y"]
    by (simp add: last_day_of_month_def civil_date_def days_in_month_def)
qed

section \<open>Keys and flags of the schedule rows\<close>

lemma schedule_keys_update_flags [simp]:
  "schedule_keys (update_schedule_flags d sid off al) = schedule_keys d"
  by (simp add: schedule_keys_def update_schedule_flags_def o_def if_distrib cong: if_cong)

lemma schedules_unique_insert_schedule:
  assumes "schedules_unique d"
  shows "schedules_unique (state_of d (insert_schedule d driver dt off al))"
  using assms by (auto simp: schedules_unique_def schedule_keys_def insert_schedule_def)

lemma schedules_unique_delete:
  assumes "schedules_unique d"
  shows "schedules_unique (delete_schedules P d)"
  using assms
  by (simp add: schedules_unique_def schedule_keys_def delete_schedules_def distinct_map_filter)

lemma schedule_keys_upsert_conflict:
  assumes "(driver, dt) \<in> set (schedule_keys d)"
  shows "schedule_keys (upsert_day_off driver dt d) = schedule_keys d"
  using assms
  by (simp add: schedule_keys_def upsert_day_off_def o_def if_distrib cong: if_cong)

lemma schedule_keys_upsert_new:
  assumes "(driver, dt) \<notin> set (schedule_keys d)"
  shows "schedule_keys (upsert_day_off driver dt d) = schedule_keys d @ [(driver, dt)]"
  using assms by (simp add: schedule_keys_def upsert_day_off_def)

lemma schedules_unique_upsert:
  assumes "schedules_unique d"
  shows "schedules_unique (upsert_day_off driver dt d)"
proof (cases "(driver, dt) \<in> set (schedule_keys d)")
  case True
  then show ?thesis using assms by (simp add: schedules_unique_def schedule_keys_upsert_conflict)
next
  case False
  then show ?thesis using assms by (simp add: schedules_unique_def schedule_keys_upsert_new)
qed

lemma schedule_flags_upsert:
  "schedule_flags (upsert_day_off driver dt d) =
     {x \<in> schedule_flags d. \<not> (fst x = driver \<and> fst (snd x) = dt)} \<union> {(driver, dt, True)}"
proof (cases "(driver, dt) \<in> set (map (\<lambda>r. (s_driver_id r, s_date r)) (schedules d))")
  case True
  then obtain r where r: "r \<in> set (schedules d)" "s_driver_id r = driver" "s_date r = dt"
    by auto
  have "schedule_flags (upsert_day_off driver dt d) =
      (\<lambda>r. if s_driver_id r = driver \<and> s_date r = dt then (driver, dt, True)
            else (s_driver_id r, s_date r, is_day_off r)) ` set (schedules d)"
    using True by (simp add: schedule_flags_def upsert_day_off_def o_def if_distrib cong: if_cong)
  also have "\<dots> = {x \<in> schedule_flags d. \<not> (fst x = driver \<and> fst (snd x) = dt)}
      \<union> {(driver, dt, True)}"
    using r by (auto simp: schedule_flags_def image_iff split: if_splits)
  finally show ?thesis .
next
  case False
  then show ?thesis
    by (auto simp: schedule_flags_def upsert_day_off_def)
qed

lemma schedule_flags_fold_upsert:
  "schedule_flags (fold (upsert_day_off driver) ds d) =
     {x \<in> schedule_flags d. \<not> (fst x = driver \<and> fst (snd x) \<in> set ds)}
     \<union> {(driver, dt, True) | dt. dt \<in> set ds}"
proof (induction ds arbitrary: d)
  case Nil
  show ?case by simp
next
  case (Cons a ds)
  show ?case
    unfolding fold_Cons comp_apply Cons.IH schedule_flags_upsert by auto
qed

lemma schedules_unique_fold_upsert:
  assumes "schedules_unique d"
  shows "schedules_unique (fold (upsert_day_off driver) ds d)"
  using assms by (induction ds arbitrary: d) (simp_all add: schedules_unique_upsert)

lemma schedule_flags_delete:
  "schedule_flags
     (delete_schedules (\<lambda>r. Q (s_driver_id r) (s_date r) (is_day_off r)) d) =
   {x \<in> schedule_flags d. \<not> Q (fst x) (fst (snd x)) (snd (snd x))}"
  by (auto simp: schedule_flags_def delete_schedules_def)

section \<open>The trigger's loop\<close>

lemma dayoff_loop_fold:
  "dayoff_loop NEW curr_date last_day d =
     fold (upsert_day_off (p_driver_id NEW))
       (filter (\<lambda>dt. j2day dt = day_of_week NEW) [curr_date..last_day]) d"
proof (induction NEW curr_date last_day d rule: dayoff_loop.induct)
  case (1 NEW curr_date last_day d)
  show ?case
  proof (cases "curr_date \<le> last_day")
    case True
    then have u: "[curr_date..last_day] = curr_date # [curr_date + 1..last_day]"
      by (rule upto_rec1)
    show ?thesis
      using True "1.IH" [OF True]
      by (subst dayoff_loop.simps) (simp add: u local_dow_eq)
  next
    case False
    then show ?thesis by (subst dayoff_loop.simps) simp
  qed
qed

lemma trigger_Inr:
  assumes "create_monthly_dayoff_schedules NEW d = Inr d'"
  obtains lo hi where
    "make_date (p_year NEW) (p_month NEW) 1 = Inr lo"
    "last_day_of_month (astronomical (p_year NEW)) (p_month NEW) lo = Inr hi"
    "d' = fold (upsert_day_off (p_driver_id NEW))
            (filter (\<lambda>dt. j2day dt = day_of_week NEW) [lo..hi])
            (delete_schedules
               (\<lambda>r. s_driver_id r = p_driver_id NEW \<and> lo \<le> s_date r \<and> s_date r \<le> hi
                    \<and> is_day_off r) d)"
  using assms
  by (auto simp: create_monthly_dayoff_schedules_def dayoff_loop_fold split: sum.splits)

text \<open>In a year of the range the trigger succeeds and covers the civil month.\<close>

lemma trigger_succeeds:
  assumes "year_in_range (p_year NEW)" "1 \<le> p_month NEW" "p_month NEW \<le> 12"
  shows "create_monthly_dayoff_schedules NEW d =
     Inr (fold (upsert_day_off (p_driver_id NEW))
            (filter (\<lambda>dt. j2day dt = day_of_week NEW)
               [civil_date (p_year NEW) (p_month NEW) 1..
                civil_date (p_year NEW) (p_month NEW)
                  (days_in_month (p_year NEW) (p_month NEW))])
            (delete_schedules
               (\<lambda>r. s_driver_id r = p_driver_id NEW
                    \<and> civil_date (p_year NEW) (p_month NEW) 1 \<le> s_date r
                    \<and> s_date r \<le> civil_date (p_year NEW) (p_month NEW)
                         (days_in_month (p_year NEW) (p_month NEW))
                    \<and> is_day_off r) d))"
  by (simp add: create_monthly_dayoff_schedules_def dayoff_loop_fold
      make_date_first [OF assms] last_day_of_month_last [OF assms])

lemma schedules_unique_trigger:
  assumes "schedules_unique d" "create_monthly_dayoff_schedules NEW d = Inr d'"
  shows "schedules_unique d'"
proof -
  from trigger_Inr [OF assms(2)] obtain lo hi where
    "d' = fold (upsert_day_off (p_driver_id NEW))
            (filter (\<lambda>dt. j2day dt = day_of_week NEW) [lo..hi])
            (delete_schedules
               (\<lambda>r. s_driver_id r = p_driver_id NEW \<and> lo \<le> s_date r \<and> s_date r \<le> hi
                    \<and> is_day_off r) d)"
    by blast
  then show ?thesis
    by (simp only:) (intro schedules_unique_fold_upsert schedules_unique_delete assms(1))
qed

lemma patterns_upsert [simp]:
  "driver_monthly_dayoff (upsert_day_off driver dt d) = driver_monthly_dayoff d"
  by (simp add: upsert_day_off_def)

lemma patterns_fold_upsert [simp]:
  "driver_monthly_dayoff (fold (upsert_day_off driver) ds d) = driver_monthly_dayoff d"
  by (induction ds arbitrary: d) simp_all

lemma patterns_trigger:
  assumes "create_monthly_dayoff_schedules NEW d = Inr d'"
  shows "driver_monthly_dayoff d' = driver_monthly_dayoff d"
proof -
  from trigger_Inr [OF assms] obtain lo hi where
    "d' = fold (upsert_day_off (p_driver_id NEW))
            (filter (\<lambda>dt. j2day dt = day_of_week NEW) [lo..hi])
            (delete_schedules
               (\<lambda>r. s_driver_id r = p_driver_id NEW \<and> lo \<le> s_date r \<and> s_date r \<le> hi
                    \<and> is_day_off r) d)"
    by blast
  then show ?thesis by (simp add: delete_schedules_def)
qed

lemma schedule_flags_trigger:
  assumes "year_in_range (p_year NEW)" "1 \<le> p_month NEW" "p_month NEW \<le> 12"
    and "create_monthly_dayoff_schedules NEW d = Inr d'"
  shows "schedule_flags d' =
     {x \<in> schedule_flags d.
        \<not> (fst x = p_driver_id NEW
           \<and> in_month (p_year NEW) (p_month NEW) (fst (snd x))
           \<and> (snd (snd x) \<or> j2day (fst (snd x)) = day_of_week NEW))}
     \<union> {(p_driver_id NEW, dt, True) | dt.
          in_month (p_year NEW) (p_month NEW) dt \<and> j2day dt = day_of_week NEW}"
proof -
  let ?lo = "civil_date (p_year NEW) (p_month NEW) 1"
  let ?hi = "civil_date (p_year NEW) (p_month NEW) (days_in_month (p_year NEW) (p_month NEW))"
  have del: "schedule_flags (delete_schedules
          (\<lambda>r. s_driver_id r = p_driver_id NEW \<and> ?lo \<le> s_date r \<and> s_date r \<le> ?hi
               \<and> is_day_off r) d) =
      {x \<in> schedule_flags d. \<not> (fst x = p_driver_id NEW \<and> ?lo \<le> fst (snd x)
          \<and> fst (snd x) \<le> ?hi \<and> snd (snd x))}"
    by (rule schedule_flags_delete
        [of "\<lambda>a b f. a = p_driver_id NEW \<and> ?lo \<le> b \<and> b \<le> ?hi \<and> f"])
  have "d' = fold (upsert_day_off (p_driver_id NEW))
            (filter (\<lambda>dt. j2day dt = day_of_week NEW) [?lo..?hi])
            (delete_schedules
               (\<lambda>r. s_driver_id r = p_driver_id NEW \<and> ?lo \<le> s_date r \<and> s_date r \<le> ?hi
                    \<and> is_day_off r) d)"
    using assms(4) unfolding trigger_succeeds [OF assms(1-3)] by simp
  then show ?thesis
    unfolding in_month_def by (simp only: schedule_flags_fold_upsert del) auto
qed

section \<open>The ids of the schedule rows\<close>

lemma schedule_ids_update_flags [simp]:
  "map s_id (schedules (update_schedule_flags d sid off al)) = map s_id (schedules d)"
  by (simp add: update_schedule_flags_def o_def if_distrib cong: if_cong)

lemma schedule_ids_unique_insert_schedule:
  assumes "schedule_ids_unique d"
  shows "schedule_ids_unique (state_of d (insert_schedule d driver dt off al))"
  using assms gen_random_uuid_fresh [of "map s_id (schedules d)"]
  by (auto simp: schedule_ids_unique_def insert_schedule_def)

lemma schedule_ids_unique_delete:
  assumes "schedule_ids_unique d"
  shows "schedule_ids_unique (delete_schedules P d)"
  using assms
  by (simp add: schedule_ids_unique_def delete_schedules_def distinct_map_filter)

lemma schedule_ids_unique_upsert:
  assumes "schedule_ids_unique d"
  shows "schedule_ids_unique (upsert_day_off driver dt d)"
  using assms gen_random_uuid_fresh [of "map s_id (schedules d)"]
  by (auto simp: schedule_ids_unique_def upsert_day_off_def o_def if_distrib cong: if_cong)

lemma schedule_ids_unique_fold_upsert:
  assumes "schedule_ids_unique d"
  shows "schedule_ids_unique (fold (upsert_day_off driver) ds d)"
  using assms by (induction ds arbitrary: d) (simp_all add: schedule_ids_unique_upsert)

lemma schedule_ids_unique_trigger:
  assumes "schedule_ids_unique d" "create_monthly_dayoff_schedules NEW d = Inr d'"
  shows "schedule_ids_unique d'"
proof -
  from trigger_Inr [OF assms(2)] obtain lo hi where
    "d' = fold (upsert_day_off (p_driver_id NEW))
            (filter (\<lambda>dt. j2day dt = day_of_week NEW) [lo..hi])
            (delete_schedules
               (\<lambda>r. s_driver_id r = p_driver_id NEW \<and> lo \<le> s_date r \<and> s_date r \<le> hi
                    \<and> is_day_off r) d)"
    by blast
  then show ?thesis
    by (simp only:) (intro schedule_ids_unique_fold_upsert schedule_ids_unique_delete assms(1))
qed

section \<open>Counting rows under the uniqueness constraint\<close>

lemma length_driver_rows:
  assumes "schedules_unique d"
  shows "length (filter (\<lambda>r. s_driver_id r = driver \<and> Q (s_date r) (is_day_off r))
           (schedules d)) =
         card {b. \<exists>f. (driver, b, f) \<in> schedule_flags d \<and> Q b f}"
proof -
  let ?ys = "filter (\<lambda>r. s_driver_id r = driver \<and> Q (s_date r) (is_day_off r)) (schedules d)"
  have "distinct (map (\<lambda>r. (s_driver_id r, s_date r)) ?ys)"
    using assms unfolding schedules_unique_def schedule_keys_def by (rule distinct_map_filter)
  moreover have "map (\<lambda>r. (s_driver_id r, s_date r)) ?ys = map (Pair driver) (map s_date ?ys)"
    by simp
  ultimately have "distinct (map s_date ?ys)"
    by (simp only: distinct_map [of "Pair driver"])
  then have "card (set (map s_date ?ys)) = length ?ys"
    using distinct_card [of "map s_date ?ys"] by simp
  moreover have "set (map s_date ?ys) = {b. \<exists>f. (driver, b, f) \<in> schedule_flags d \<and> Q b f}"
    by (auto simp: schedule_flags_def image_iff)
  ultimately show ?thesis by simp
qed

section \<open>The dates of a month\<close>

lemma civil_date_day: "civil_date y m dd = civil_date y m 1 + (dd - 1)"
  unfolding civil_date_def by (rule date2j_day)

lemma set_weekday_dates:
  "set (weekday_dates y m k) = {dt. in_month y m dt \<and> j2day dt = k}"
proof -
  have "civil_date y m ` {1..days_in_month y m} = {dt. in_month y m dt}"
  proof (intro set_eqI iffI)
    fix dt assume "dt \<in> civil_date y m ` {1..days_in_month y m}"
    then obtain dd where "dt = civil_date y m dd" "1 \<le> dd" "dd \<le> days_in_month y m" by auto
    then show "dt \<in> {dt. in_month y m dt}"
      using civil_date_day [of y m dd] civil_date_day [of y m "days_in_month y m"]
      by (simp add: in_month_def)
  next
    fix dt assume "dt \<in> {dt. in_month y m dt}"
    then have b: "civil_date y m 1 \<le> dt" "dt \<le> civil_date y m (days_in_month y m)"
      by (simp_all add: in_month_def)
    let ?dd = "dt - civil_date y m 1 + 1"
    have "dt = civil_date y m ?dd" using civil_date_day [of y m ?dd] by simp
    moreover have "1 \<le> ?dd" using b by simp
    moreover have "?dd \<le> days_in_month y m"
      using b civil_date_day [of y m "days_in_month y m"] by simp
    ultimately show "dt \<in> civil_date y m ` {1..days_in_month y m}" by auto
  qed
  then show ?thesis by (auto simp: weekday_dates_def)
qed

lemma distinct_weekday_dates: "distinct (weekday_dates y m k)"
proof -
  have "inj (civil_date y m)"
    by (rule injI) (use civil_date_day [of y m] in \<open>metis add_diff_cancel_left' diff_add_cancel\<close>)
  then have "distinct (map (civil_date y m) [1..days_in_month y m])"
    by (simp add: distinct_map inj_on_def inj_def)
  then show ?thesis by (simp add: weekday_dates_def)
qed

section \<open>Submitting a pattern\<close>

lemma filter_key_unique:
  assumes "distinct (map f xs)" "x \<in> set xs"
  shows "filter (\<lambda>z. f z = f x) xs = [x]"
  using assms
proof (induction xs)
  case Nil
  then show ?case by simp
next
  case (Cons a xs)
  show ?case
  proof (cases "a = x")
    case True
    have "f x \<notin> f ` set xs" using Cons.prems(1) True by simp
    then have "\<forall>z \<in> set xs. f z \<noteq> f x" by (metis imageI)
    then have "filter (\<lambda>z. f z = f x) xs = []"
      by (simp add: filter_empty_conv)
    then show ?thesis using True by simp
  next
    case False
    then have "x \<in> set xs" using Cons.prems(2) by simp
    moreover have "f a \<noteq> f x" using Cons.prems(1) \<open>x \<in> set xs\<close> by auto
    ultimately show ?thesis using Cons by simp
  qed
qed

lemma filter_key_at_most_one:
  assumes "distinct (map f xs)"
  shows "filter (\<lambda>z. f z = c) xs = [] \<or> (\<exists>x. filter (\<lambda>z. f z = c) xs = [x])"
proof (cases "filter (\<lambda>z. f z = c) xs")
  case Nil
  then show ?thesis by simp
next
  case (Cons x ys)
  then have "x \<in> set (filter (\<lambda>z. f z = c) xs)" by simp
  then have x: "x \<in> set xs" "f x = c" by simp_all
  have "filter (\<lambda>z. f z = f x) xs = [x]" by (rule filter_key_unique [OF assms x(1)])
  then show ?thesis using x(2) by simp
qed

lemma pattern_key_filter:
  "filter (\<lambda>p. p_driver_id p = driver \<and> p_month p = m \<and> p_year p = y) ps =
   filter (\<lambda>p. (p_driver_id p, p_month p, p_year p) = (driver, m, y)) ps"
  by simp

lemma int4_month_year:
  assumes "year_in_range y" "1 \<le> m" "m \<le> 12"
  shows "int4 m" "int4 y"
  using assms by (simp_all add: int4_def year_in_range_def)

lemma int4_day: "0 \<le> k \<Longrightarrow> k \<le> 6 \<Longrightarrow> int4 k"
  by (simp add: int4_def)

lemma set_pattern_insert:
  assumes "pattern_rows d driver y m = []" "int4 m" "int4 y"
    and "1 \<le> m" "m \<le> 12" "0 \<le> k" "k \<le> 6"
  shows "set_pattern d driver m y k =
     create_monthly_dayoff_schedules
       \<lparr>p_id = gen_random_uuid (map p_id (driver_monthly_dayoff d)), p_driver_id = driver,
         p_month = m, p_year = y, day_of_week = k\<rparr>
       (d\<lparr>driver_monthly_dayoff := driver_monthly_dayoff d @
            [\<lparr>p_id = gen_random_uuid (map p_id (driver_monthly_dayoff d)),
              p_driver_id = driver, p_month = m, p_year = y, day_of_week = k\<rparr>]\<rparr>)"
proof -
  have "(driver, m, y) \<notin>
      set (map (\<lambda>p. (p_driver_id p, p_month p, p_year p)) (driver_monthly_dayoff d))"
    using assms(1) by (auto simp: pattern_rows_def filter_empty_conv)
  then show ?thesis
    using assms int4_day [OF assms(6,7)]
    by (simp add: set_pattern_def pattern_rows_def insert_pattern_def Let_def)
qed

lemma set_pattern_update:
  assumes "pattern_rows d driver y m = [p]" "distinct (map p_id (driver_monthly_dayoff d))"
    and "int4 m" "int4 y" "0 \<le> k" "k \<le> 6"
  shows "set_pattern d driver m y k =
     (case create_monthly_dayoff_schedules (p\<lparr>day_of_week := k\<rparr>)
             (d\<lparr>driver_monthly_dayoff :=
                  map (\<lambda>q. if p_id q = p_id p then q\<lparr>day_of_week := k\<rparr> else q)
                    (driver_monthly_dayoff d)\<rparr>) of
        Inl e \<Rightarrow> Inl e | Inr d' \<Rightarrow> Inr d')"
proof -
  have "p \<in> set (pattern_rows d driver y m)" using assms(1) by simp
  then have "p \<in> set (driver_monthly_dayoff d)" by (simp add: pattern_rows_def)
  then have "filter (\<lambda>q. p_id q = p_id p) (driver_monthly_dayoff d) = [p]"
    using assms(2) by (intro filter_key_unique)
  then show ?thesis
    using assms int4_day [OF assms(5,6)]
    by (simp add: set_pattern_def pattern_rows_def update_pattern_def split: sum.splits)
qed

lemma pattern_rows_cases:
  assumes "patterns_unique d"
  shows "pattern_rows d driver y m = [] \<or> (\<exists>p. pattern_rows d driver y m = [p])"
proof -
  have "distinct (map (\<lambda>p. (p_driver_id p, p_month p, p_year p)) (driver_monthly_dayoff d))"
    using assms by (simp add: patterns_unique_def)
  from filter_key_at_most_one [OF this, of "(driver, m, y)"]
  show ?thesis unfolding pattern_rows_def pattern_key_filter .
qed

lemma map_update_day_keeps:
  "map p_id (map (\<lambda>q. if p_id q = i then q\<lparr>day_of_week := k\<rparr> else q) ps) = map p_id ps"
  "map (\<lambda>p. (p_driver_id p, p_month p, p_year p))
     (map (\<lambda>q. if p_id q = i then q\<lparr>day_of_week := k\<rparr> else q) ps) =
   map (\<lambda>p. (p_driver_id p, p_month p, p_year p)) ps"
  by (induction ps) auto

lemma filter_update_day:
  "filter (\<lambda>p. p_driver_id p = driver \<and> p_month p = m \<and> p_year p = y)
     (map (\<lambda>q. if p_id q = i then q\<lparr>day_of_week := k\<rparr> else q) ps) =
   map (\<lambda>q. if p_id q = i then q\<lparr>day_of_week := k\<rparr> else q)
     (filter (\<lambda>p. p_driver_id p = driver \<and> p_month p = m \<and> p_year p = y) ps)"
  by (induction ps) auto

text \<open>
  What a submission does on a store that satisfies its constraints, in a year of the
  range: the trigger runs once and succeeds, for a row of the submitted driver, month,
  year and day, which is afterwards the only pattern row of its key.
\<close>

lemma set_pattern_result:
  assumes "patterns_unique d" "year_in_range y" "1 \<le> m" "m \<le> 12" "0 \<le> k" "k \<le> 6"
  obtains NEW ps d' where
    "set_pattern d driver m y k = Inr d'"
    "create_monthly_dayoff_schedules NEW (d\<lparr>driver_monthly_dayoff := ps\<rparr>) = Inr d'"
    "p_driver_id NEW = driver" "p_month NEW = m" "p_year NEW = y" "day_of_week NEW = k"
    "filter (\<lambda>p. p_driver_id p = driver \<and> p_month p = m \<and> p_year p = y) ps = [NEW]"
    "distinct (map p_id ps)"
    "distinct (map (\<lambda>p. (p_driver_id p, p_month p, p_year p)) ps)"
proof -
  let ?ps = "driver_monthly_dayoff d"
  note i4 = int4_month_year [OF assms(2-4)]
  have ids: "distinct (map p_id ?ps)"
    and keys: "distinct (map (\<lambda>p. (p_driver_id p, p_month p, p_year p)) ?ps)"
    using assms(1) by (simp_all add: patterns_unique_def)
  from pattern_rows_cases [OF assms(1), of driver y m]
  show thesis
  proof (elim disjE exE)
    assume e: "pattern_rows d driver y m = []"
    let ?NEW = "\<lparr>p_id = gen_random_uuid (map p_id ?ps), p_driver_id = driver,
              p_month = m, p_year = y, day_of_week = k\<rparr>"
    have nk: "(driver, m, y) \<notin> set (map (\<lambda>p. (p_driver_id p, p_month p, p_year p)) ?ps)"
      using e by (auto simp: pattern_rows_def filter_empty_conv)
    have f: "filter (\<lambda>p. p_driver_id p = driver \<and> p_month p = m \<and> p_year p = y)
        (?ps @ [?NEW]) = [?NEW]"
      using e by (simp add: pattern_rows_def)
    have i: "distinct (map p_id (?ps @ [?NEW]))"
      using ids gen_random_uuid_fresh [of "map p_id ?ps"] by simp
    have k: "distinct (map (\<lambda>p. (p_driver_id p, p_month p, p_year p)) (?ps @ [?NEW]))"
      using keys nk by simp
    have q: "p_driver_id ?NEW = driver" "p_month ?NEW = m" "p_year ?NEW = y"
      "day_of_week ?NEW = k" by simp_all
    have ok: "year_in_range (p_year ?NEW)" "1 \<le> p_month ?NEW" "p_month ?NEW \<le> 12"
      using assms(2-4) by simp_all
    obtain d' where t: "create_monthly_dayoff_schedules ?NEW
        (d\<lparr>driver_monthly_dayoff := ?ps @ [?NEW]\<rparr>) = Inr d'"
      using trigger_succeeds [OF ok] by blast
    have s: "set_pattern d driver m y k = Inr d'"
      unfolding set_pattern_insert [OF e i4 assms(3-6)] by (rule t)
    show thesis by (rule that [OF s t q f i k])
  next
    fix p assume e: "pattern_rows d driver y m = [p]"
    let ?NEW = "p\<lparr>day_of_week := k\<rparr>"
    let ?upd = "\<lambda>q. if p_id q = p_id p then q\<lparr>day_of_week := k\<rparr> else q"
    have "p \<in> set (pattern_rows d driver y m)" using e by simp
    then have p: "p_driver_id p = driver" "p_month p = m" "p_year p = y"
      by (simp_all add: pattern_rows_def)
    have f: "filter (\<lambda>p. p_driver_id p = driver \<and> p_month p = m \<and> p_year p = y)
        (map ?upd ?ps) = [?NEW]"
      unfolding filter_update_day using e by (simp add: pattern_rows_def)
    have i: "distinct (map p_id (map ?upd ?ps))"
      unfolding map_update_day_keeps by (rule ids)
    have k: "distinct (map (\<lambda>p. (p_driver_id p, p_month p, p_year p)) (map ?upd ?ps))"
      unfolding map_update_day_keeps by (rule keys)
    have q: "p_driver_id ?NEW = driver" "p_month ?NEW = m" "p_year ?NEW = y"
      "day_of_week ?NEW = k" using p by simp_all
    have ok: "year_in_range (p_year ?NEW)" "1 \<le> p_month ?NEW" "p_month ?NEW \<le> 12"
      using assms(2-4) p by simp_all
    obtain d' where t: "create_monthly_dayoff_schedules ?NEW
        (d\<lparr>driver_monthly_dayoff := map ?upd ?ps\<rparr>) = Inr d'"
      using trigger_succeeds [OF ok] by blast
    have s: "set_pattern d driver m y k = Inr d'"
      unfolding set_pattern_update [OF e ids i4 assms(5,6)] t by simp
    show thesis by (rule that [OF s t q f i k])
  qed
qed

lemma dates_driver_rows:
  "set (map s_date (filter (\<lambda>r. s_driver_id r = driver \<and> Q (s_date r) (is_day_off r))
          (schedules d))) =
   {b. \<exists>f. (driver, b, f) \<in> schedule_flags d \<and> Q b f}"
  by (auto simp: schedule_flags_def image_iff)

lemma day_off_rows_filter:
  "day_off_rows d driver y m =
     filter (\<lambda>r. s_driver_id r = driver \<and> (in_month y m (s_date r) \<and> is_day_off r))
       (schedules d)"
  by (simp add: day_off_rows_def driver_month_rows_def conj_ac)

lemma driver_month_rows_filter:
  "driver_month_rows d driver y m =
     filter (\<lambda>r. s_driver_id r = driver \<and> (\<lambda>b f. in_month y m b) (s_date r) (is_day_off r))
       (schedules d)"
  by (simp add: driver_month_rows_def)

lemma schedules_unique_patterns_update [simp]:
  "schedules_unique (d\<lparr>driver_monthly_dayoff := ps\<rparr>) = schedules_unique d"
  by (simp add: schedules_unique_def schedule_keys_def)

lemma schedule_flags_patterns_update [simp]:
  "schedule_flags (d\<lparr>driver_monthly_dayoff := ps\<rparr>) = schedule_flags d"
  by (simp add: schedule_flags_def)

text \<open>The day-off dates of the driver in the month, after the trigger has run.\<close>

lemma day_off_dates_after_trigger:
  assumes "year_in_range (p_year NEW)" "1 \<le> p_month NEW" "p_month NEW \<le> 12"
    and "create_monthly_dayoff_schedules NEW d = Inr d'"
  shows "{b. \<exists>f. (p_driver_id NEW, b, f) \<in> schedule_flags d'
            \<and> in_month (p_year NEW) (p_month NEW) b \<and> f} =
         set (weekday_dates (p_year NEW) (p_month NEW) (day_of_week NEW))"
  unfolding schedule_flags_trigger [OF assms] set_weekday_dates by auto

text \<open>
  C1. On a store that satisfies its uniqueness constraints, for every driver, month from
  1 to 12, day of the week from 0 to 6 and year whose months the store's timestamp type
  holds in full (4713 BC to 294275, without the year 0, which the store does not have),
  Set Pattern succeeds and leaves exactly as many day-off rows of the driver in the month
  as the month has dates on that day of the week, one on each of these dates. For
  February 2024 and day 4, Thursday, these are the five rows of 1, 8, 15, 22 and
  29 February. The bound on the year is needed: for a year that does not fit the 32 bits
  of the column, for the year 0 and for a year beyond the store's calendar the store
  answers an error and nothing is written, as the section on years outside the range
  shows on instances.
\<close>

theorem set_pattern_marks_every_matching_date:
  assumes "schedules_unique d" "patterns_unique d"
    and "1 \<le> m" "m \<le> 12" "0 \<le> k" "k \<le> 6" "year_in_range y"
  shows "\<exists>d'. set_pattern d driver m y k = Inr d' \<and>
           length (day_off_rows d' driver y m) = length (weekday_dates y m k) \<and>
           set (map s_date (day_off_rows d' driver y m)) = set (weekday_dates y m k)"
proof -
  from set_pattern_result [OF assms(2,7,3-6), of driver]
  obtain NEW ps d' where r: "set_pattern d driver m y k = Inr d'"
    and t: "create_monthly_dayoff_schedules NEW (d\<lparr>driver_monthly_dayoff := ps\<rparr>) = Inr d'"
    and n: "p_driver_id NEW = driver" "p_month NEW = m" "p_year NEW = y" "day_of_week NEW = k"
    by blast
  have u: "schedules_unique d'"
    by (rule schedules_unique_trigger [OF _ t]) (simp add: assms(1))
  have ok: "year_in_range (p_year NEW)" "1 \<le> p_month NEW" "p_month NEW \<le> 12"
    using n assms(3,4,7) by simp_all
  have dates: "{b. \<exists>f. (driver, b, f) \<in> schedule_flags d' \<and> in_month y m b \<and> f} =
      set (weekday_dates y m k)"
    using day_off_dates_after_trigger [OF ok t] n by simp
  have "length (day_off_rows d' driver y m) =
      card {b. \<exists>f. (driver, b, f) \<in> schedule_flags d' \<and> in_month y m b \<and> f}"
    unfolding day_off_rows_filter
    by (rule length_driver_rows [OF u, of driver "\<lambda>b f. in_month y m b \<and> f"])
  also have "\<dots> = length (weekday_dates y m k)"
    unfolding dates by (rule distinct_card [OF distinct_weekday_dates])
  finally have len: "length (day_off_rows d' driver y m) = length (weekday_dates y m k)" .
  have "set (map s_date (day_off_rows d' driver y m)) =
      {b. \<exists>f. (driver, b, f) \<in> schedule_flags d' \<and> in_month y m b \<and> f}"
    unfolding day_off_rows_filter
    by (rule dates_driver_rows [of driver "\<lambda>b f. in_month y m b \<and> f"])
  then have "set (map s_date (day_off_rows d' driver y m)) = set (weekday_dates y m k)"
    unfolding dates .
  then show ?thesis using r len by blast
qed

theorem set_pattern_marks_every_matching_date_witness:
  "schedules_unique on_leave \<and> patterns_unique on_leave \<and> year_in_range 2024 \<and>
   (\<exists>d'. set_pattern on_leave 1 2 2024 4 = Inr d' \<and>
      length (day_off_rows d' 1 2024 2) = 5 \<and>
      set (map s_date (day_off_rows d' 1 2024 2)) =
        {civil_date 2024 2 1, civil_date 2024 2 8, civil_date 2024 2 15,
         civil_date 2024 2 22, civil_date 2024 2 29})"
proof -
  have h: "schedules_unique on_leave" "patterns_unique on_leave" by code_simp+
  have y: "year_in_range 2024" by (simp add: year_in_range_def)
  have w: "weekday_dates 2024 2 4 =
      [civil_date 2024 2 1, civil_date 2024 2 8, civil_date 2024 2 15, civil_date 2024 2 22,
       civil_date 2024 2 29]" by code_simp
  from set_pattern_marks_every_matching_date [OF h _ _ _ _ y, of 2 4 1]
  obtain d' where d: "set_pattern on_leave 1 2 2024 4 = Inr d'"
      "length (day_off_rows d' 1 2024 2) = length (weekday_dates 2024 2 4)"
      "set (map s_date (day_off_rows d' 1 2024 2)) = set (weekday_dates 2024 2 4)"
    by auto
  have "length (day_off_rows d' 1 2024 2) = 5" unfolding d(2) w by simp
  moreover have "set (map s_date (day_off_rows d' 1 2024 2)) =
        {civil_date 2024 2 1, civil_date 2024 2 8, civil_date 2024 2 15, civil_date 2024 2 22,
         civil_date 2024 2 29}" unfolding d(3) w by simp
  ultimately show ?thesis using h y d(1) by blast
qed

text \<open>The dates of the driver's rows in the month, after the trigger has run.\<close>

lemma month_dates_after_trigger:
  assumes "year_in_range (p_year NEW)" "1 \<le> p_month NEW" "p_month NEW \<le> 12"
    and "create_monthly_dayoff_schedules NEW d = Inr d'"
  shows "{b. \<exists>f. (p_driver_id NEW, b, f) \<in> schedule_flags d'
            \<and> in_month (p_year NEW) (p_month NEW) b} =
         {b. (p_driver_id NEW, b, False) \<in> schedule_flags d
            \<and> in_month (p_year NEW) (p_month NEW) b}
         \<union> set (weekday_dates (p_year NEW) (p_month NEW) (day_of_week NEW))"
  unfolding schedule_flags_trigger [OF assms] set_weekday_dates by auto

lemma working_dates_after_trigger:
  assumes "year_in_range (p_year NEW)" "1 \<le> p_month NEW" "p_month NEW \<le> 12"
    and "create_monthly_dayoff_schedules NEW d = Inr d'"
  shows "{b. (p_driver_id NEW, b, False) \<in> schedule_flags d'
            \<and> in_month (p_year NEW) (p_month NEW) b} =
         {b. (p_driver_id NEW, b, False) \<in> schedule_flags d
            \<and> in_month (p_year NEW) (p_month NEW) b}
         - set (weekday_dates (p_year NEW) (p_month NEW) (day_of_week NEW))"
  unfolding schedule_flags_trigger [OF assms] set_weekday_dates by auto

lemma month_dates_trigger_twice:
  assumes "year_in_range (p_year NEW)" "1 \<le> p_month NEW" "p_month NEW \<le> 12"
    and "create_monthly_dayoff_schedules NEW d = Inr d1"
    and "schedule_flags d1' = schedule_flags d1"
    and "create_monthly_dayoff_schedules NEW d1' = Inr d2"
  shows "{b. \<exists>f. (p_driver_id NEW, b, f) \<in> schedule_flags d2
            \<and> in_month (p_year NEW) (p_month NEW) b} =
         {b. \<exists>f. (p_driver_id NEW, b, f) \<in> schedule_flags d1
            \<and> in_month (p_year NEW) (p_month NEW) b}"
proof -
  have "{b. (p_driver_id NEW, b, False) \<in> schedule_flags d1'
            \<and> in_month (p_year NEW) (p_month NEW) b} =
         {b. (p_driver_id NEW, b, False) \<in> schedule_flags d
            \<and> in_month (p_year NEW) (p_month NEW) b}
         - set (weekday_dates (p_year NEW) (p_month NEW) (day_of_week NEW))"
    unfolding assms(5) by (rule working_dates_after_trigger [OF assms(1-4)])
  then show ?thesis
    unfolding month_dates_after_trigger [OF assms(1-3,6)]
      month_dates_after_trigger [OF assms(1-4)] by blast
qed

lemma record_update_same_day: "day_of_week p = k \<Longrightarrow> p\<lparr>day_of_week := k\<rparr> = p"
  by simp

text \<open>
  C7. Set Pattern is idempotent: on a store that satisfies its uniqueness constraints,
  for a month from 1 to 12, a day of the week from 0 to 6 and a year whose months the
  store's timestamp type holds in full, submitting the same driver, month, year and day
  of the week a second time succeeds, leaves the number of schedule rows of the driver in
  the month as the first submission left it, and leaves the one pattern row of the key
  as it was.
\<close>

theorem set_pattern_twice_same_rows:
  assumes "schedules_unique d" "patterns_unique d"
    and "1 \<le> m" "m \<le> 12" "0 \<le> k" "k \<le> 6" "year_in_range y"
  shows "\<exists>d1 d2. set_pattern d driver m y k = Inr d1 \<and> set_pattern d1 driver m y k = Inr d2 \<and>
           length (driver_month_rows d2 driver y m) = length (driver_month_rows d1 driver y m) \<and>
           pattern_rows d2 driver y m = pattern_rows d1 driver y m \<and>
           length (pattern_rows d2 driver y m) = 1"
proof -
  from set_pattern_result [OF assms(2,7,3-6), of driver]
  obtain NEW ps d1 where r1: "set_pattern d driver m y k = Inr d1"
    and t1: "create_monthly_dayoff_schedules NEW (d\<lparr>driver_monthly_dayoff := ps\<rparr>) = Inr d1"
    and n: "p_driver_id NEW = driver" "p_month NEW = m" "p_year NEW = y" "day_of_week NEW = k"
    and f: "filter (\<lambda>p. p_driver_id p = driver \<and> p_month p = m \<and> p_year p = y) ps = [NEW]"
    and ids: "distinct (map p_id ps)"
    by blast
  let ?upd = "\<lambda>q. if p_id q = p_id NEW then q\<lparr>day_of_week := k\<rparr> else q"
  let ?d1' = "d1\<lparr>driver_monthly_dayoff := map ?upd (driver_monthly_dayoff d1)\<rparr>"
  have ps1: "driver_monthly_dayoff d1 = ps"
    using patterns_trigger [OF t1] by simp
  have p1: "pattern_rows d1 driver y m = [NEW]"
    using f by (simp add: pattern_rows_def ps1)
  have ids1: "distinct (map p_id (driver_monthly_dayoff d1))"
    using ids by (simp add: ps1)
  have ok: "year_in_range (p_year NEW)" "1 \<le> p_month NEW" "p_month NEW \<le> 12"
    using n assms(3,4,7) by simp_all
  obtain d2 where t2: "create_monthly_dayoff_schedules NEW ?d1' = Inr d2"
    using trigger_succeeds [OF ok] by blast
  note i4 = int4_month_year [OF assms(7,3,4)]
  have r2: "set_pattern d1 driver m y k = Inr d2"
    unfolding set_pattern_update [OF p1 ids1 i4 assms(5,6)]
      record_update_same_day [OF n(4)] t2 by simp
  have "driver_monthly_dayoff d2 = map ?upd ps"
    using patterns_trigger [OF t2] by (simp add: ps1)
  then have "pattern_rows d2 driver y m = map ?upd [NEW]"
    by (simp add: pattern_rows_def filter_update_day f)
  then have p2: "pattern_rows d2 driver y m = [NEW]"
    by (simp add: record_update_same_day [OF n(4)])
  have u1: "schedules_unique d1"
    by (rule schedules_unique_trigger [OF _ t1]) (simp add: assms(1))
  have u2: "schedules_unique d2"
    by (rule schedules_unique_trigger [OF _ t2]) (simp add: u1)
  have fl: "schedule_flags ?d1' = schedule_flags d1" by simp
  have "{b. \<exists>f. (driver, b, f) \<in> schedule_flags d2 \<and> in_month y m b} =
        {b. \<exists>f. (driver, b, f) \<in> schedule_flags d1 \<and> in_month y m b}"
    using month_dates_trigger_twice [OF ok t1 fl t2] unfolding n .
  then have "card {b. \<exists>f. (driver, b, f) \<in> schedule_flags d2 \<and> in_month y m b} =
        card {b. \<exists>f. (driver, b, f) \<in> schedule_flags d1 \<and> in_month y m b}"
    by simp
  then have len: "length (driver_month_rows d2 driver y m) =
      length (driver_month_rows d1 driver y m)"
    unfolding driver_month_rows_filter
      length_driver_rows [OF u2, of driver "\<lambda>b f. in_month y m b"]
      length_driver_rows [OF u1, of driver "\<lambda>b f. in_month y m b"] .
  show ?thesis using r1 r2 len p1 p2 by simp
qed

theorem set_pattern_twice_same_rows_witness:
  "schedules_unique on_leave \<and> patterns_unique on_leave \<and> year_in_range 2024 \<and>
   (\<exists>d1 d2. set_pattern on_leave 1 2 2024 4 = Inr d1 \<and> set_pattern d1 1 2 2024 4 = Inr d2 \<and>
      length (driver_month_rows d2 1 2024 2) = length (driver_month_rows d1 1 2024 2) \<and>
      pattern_rows d2 1 2024 2 = pattern_rows d1 1 2024 2 \<and>
      length (pattern_rows d2 1 2024 2) = 1)"
proof -
  have h: "schedules_unique on_leave" "patterns_unique on_leave" by code_simp+
  have y: "year_in_range 2024" by (simp add: year_in_range_def)
  from set_pattern_twice_same_rows [OF h _ _ _ _ y, of 2 4 1]
  have "\<exists>d1 d2. set_pattern on_leave 1 2 2024 4 = Inr d1 \<and> set_pattern d1 1 2 2024 4 = Inr d2 \<and>
      length (driver_month_rows d2 1 2024 2) = length (driver_month_rows d1 1 2024 2) \<and>
      pattern_rows d2 1 2024 2 = pattern_rows d1 1 2024 2 \<and>
      length (pattern_rows d2 1 2024 2) = 1"
    by simp
  then show ?thesis using h y by blast
qed

section \<open>Years outside the range\<close>

text \<open>
  A year that does not fit the column, or whose month the calendar of the store does not
  hold, ends the submission with an error and nothing is written; a signed numeral is
  read with its sign, and a year BC is stored.
\<close>

lemma set_pattern_year_not_int4:
  "\<not> int4 y \<Longrightarrow> set_pattern d driver m y k = Inl NumericValueOutOfRange"
  by (simp add: set_pattern_def)

lemma handleSubmit_year_out_of_range:
  "set_pattern empty_db 1 2 99999999999 4 = Inl NumericValueOutOfRange"
  "handleSubmit empty_db (Some 1) ''2'' ''99999999999'' ''4'' = (ToastError, empty_db)"
  "set_pattern empty_db 1 2 300000 4 = Inl DatetimeFieldOverflow"
  "handleSubmit empty_db (Some 1) ''2'' ''300000'' ''4'' = (ToastError, empty_db)"
  "set_pattern empty_db 1 2 0 4 = Inl DatetimeFieldOverflow"
  "handleSubmit empty_db (Some 1) ''2'' ''0'' ''4'' = (ToastError, empty_db)"
  by code_simp+

text \<open>A submission that is refused is refused again, on the store it left unchanged.\<close>

lemma set_pattern_refused_again:
  "set_pattern d driver m y k = Inl e \<Longrightarrow>
   set_pattern (state_of d (set_pattern d driver m y k)) driver m y k = Inl e"
  by simp

lemma handleSubmit_year_before_christ:
  "parseInt ''-5'' = Some (- 5)"
  "fst (handleSubmit empty_db (Some 1) ''2'' ''-5'' ''4'') = ToastSuccess"
  "map p_year (driver_monthly_dayoff (snd (handleSubmit empty_db (Some 1) ''2'' ''-5'' ''4'')))
     = [- 5]"
  "map (\<lambda>r. s_date r - civil_date (- 5) 2 1 + 1)
     (schedules (snd (handleSubmit empty_db (Some 1) ''2'' ''-5'' ''4''))) =
   map (\<lambda>dt. dt - civil_date (- 5) 2 1 + 1) (weekday_dates (- 5) 2 4)"
  by code_simp+

section \<open>One schedule row for a driver and a date\<close>

lemma schedules_unique_run_triggers:
  assumes "schedules_unique d" "run_triggers ps d = Inr d'"
  shows "schedules_unique d'"
  using assms
  by (induction ps arbitrary: d) (auto split: sum.splits dest: schedules_unique_trigger)

lemma schedule_ids_unique_run_triggers:
  assumes "schedule_ids_unique d" "run_triggers ps d = Inr d'"
  shows "schedule_ids_unique d'"
  using assms
  by (induction ps arbitrary: d) (auto split: sum.splits dest: schedule_ids_unique_trigger)

lemma schedule_ids_unique_patterns_update [simp]:
  "schedule_ids_unique (d\<lparr>driver_monthly_dayoff := ps\<rparr>) = schedule_ids_unique d"
  by (simp add: schedule_ids_unique_def)

lemma set_pattern_Inr:
  assumes "set_pattern d driver m y k = Inr d'"
  obtains NEW ps where
      "create_monthly_dayoff_schedules NEW (d\<lparr>driver_monthly_dayoff := ps\<rparr>) = Inr d'"
  | ps qs where "run_triggers qs (d\<lparr>driver_monthly_dayoff := ps\<rparr>) = Inr d'"
  using assms
  by (auto simp: set_pattern_def insert_pattern_def update_pattern_def Let_def
      split: if_splits sum.splits option.splits)

lemma schedules_unique_set_pattern:
  assumes "schedules_unique d" "set_pattern d driver m y k = Inr d'"
  shows "schedules_unique d'"
proof (rule set_pattern_Inr [OF assms(2)])
  fix NEW ps
  assume "create_monthly_dayoff_schedules NEW (d\<lparr>driver_monthly_dayoff := ps\<rparr>) = Inr d'"
  then show ?thesis by (rule schedules_unique_trigger [rotated]) (simp add: assms(1))
next
  fix ps qs
  assume "run_triggers qs (d\<lparr>driver_monthly_dayoff := ps\<rparr>) = Inr d'"
  then show ?thesis by (rule schedules_unique_run_triggers [rotated]) (simp add: assms(1))
qed

lemma schedule_ids_unique_set_pattern:
  assumes "schedule_ids_unique d" "set_pattern d driver m y k = Inr d'"
  shows "schedule_ids_unique d'"
proof (rule set_pattern_Inr [OF assms(2)])
  fix NEW ps
  assume "create_monthly_dayoff_schedules NEW (d\<lparr>driver_monthly_dayoff := ps\<rparr>) = Inr d'"
  then show ?thesis by (rule schedule_ids_unique_trigger [rotated]) (simp add: assms(1))
next
  fix ps qs
  assume "run_triggers qs (d\<lparr>driver_monthly_dayoff := ps\<rparr>) = Inr d'"
  then show ?thesis by (rule schedule_ids_unique_run_triggers [rotated]) (simp add: assms(1))
qed

lemma schedules_unique_handleSubmit:
  assumes "schedules_unique d"
  shows "schedules_unique (snd (handleSubmit d sd sm sy sk))"
  using assms schedules_unique_set_pattern [OF assms]
  by (auto simp: handleSubmit_def split: option.splits sum.splits)

lemma schedule_ids_unique_handleSubmit:
  assumes "schedule_ids_unique d"
  shows "schedule_ids_unique (snd (handleSubmit d sd sm sy sk))"
  using assms schedule_ids_unique_set_pattern [OF assms]
  by (auto simp: handleSubmit_def split: option.splits sum.splits)

lemma schedule_keys_handleScheduleUpdate_conflict:
  assumes "(driver, dt) \<in> set (schedule_keys d)"
  shows "schedule_keys (snd (handleScheduleUpdate d dt driver ty)) = schedule_keys d"
proof (cases "data_of (maybeSingle
      (filter (\<lambda>r. s_driver_id r = driver \<and> s_date r = dt) (schedules d)))")
  case None
  have "insert_schedule d driver dt (ty = day_off) (ty = annual_leave) = Inl UniqueViolation"
    using assms by (simp add: insert_schedule_def schedule_keys_def)
  then show ?thesis using None by (simp add: handleScheduleUpdate_def)
next
  case (Some r)
  then show ?thesis by (simp add: handleScheduleUpdate_def)
qed

lemma schedules_unique_handleScheduleUpdate:
  assumes "schedules_unique d"
  shows "schedules_unique (snd (handleScheduleUpdate d dt driver ty))"
proof (cases "data_of (maybeSingle
      (filter (\<lambda>r. s_driver_id r = driver \<and> s_date r = dt) (schedules d)))")
  case None
  then show ?thesis
    using schedules_unique_insert_schedule [OF assms] by (simp add: handleScheduleUpdate_def)
next
  case (Some r)
  then show ?thesis using assms by (simp add: handleScheduleUpdate_def schedules_unique_def)
qed

lemma schedules_unique_handleDelete:
  assumes "schedules_unique d"
  shows "schedules_unique (snd (handleDelete tz d pid))"
  using assms schedules_unique_delete [OF assms]
  by (simp add: handleDelete_def Let_def split: option.splits sum.splits)

lemma schedules_accrue_overtime [simp]:
  "schedules (accrue_overtime d b dt) = schedules d"
  by (simp add: accrue_overtime_def update_overtime_hours_def insert_overtime_def
      split: option.splits)

lemma schedules_handleAssignReplacement [simp]:
  "schedules (snd (handleAssignReplacement d dt s b a sh)) = schedules d"
  by (simp add: handleAssignReplacement_def insert_replacement_def)

lemma schedules_handleUpdateReplacement [simp]:
  "schedules (snd (handleUpdateReplacement d dt rid b a s)) = schedules d"
  by (simp add: handleUpdateReplacement_def update_replacement_driver_def delete_overtime_def
      Let_def split: option.splits)

lemma schedules_unique_cong:
  "schedules d' = schedules d \<Longrightarrow> schedules_unique d' = schedules_unique d"
  by (simp add: schedules_unique_def schedule_keys_def)

lemma schedule_ids_unique_handleScheduleUpdate:
  assumes "schedule_ids_unique d"
  shows "schedule_ids_unique (snd (handleScheduleUpdate d dt driver ty))"
proof (cases "data_of (maybeSingle
      (filter (\<lambda>r. s_driver_id r = driver \<and> s_date r = dt) (schedules d)))")
  case None
  then show ?thesis
    using schedule_ids_unique_insert_schedule [OF assms] by (simp add: handleScheduleUpdate_def)
next
  case (Some r)
  then show ?thesis
    using assms by (simp add: handleScheduleUpdate_def schedule_ids_unique_def)
qed

lemma schedule_ids_unique_handleDelete:
  assumes "schedule_ids_unique d"
  shows "schedule_ids_unique (snd (handleDelete tz d pid))"
  using assms schedule_ids_unique_delete [OF assms]
  by (simp add: handleDelete_def Let_def split: option.splits sum.splits)

lemma schedule_ids_unique_cong:
  "schedules d' = schedules d \<Longrightarrow> schedule_ids_unique d' = schedule_ids_unique d"
  by (simp add: schedule_ids_unique_def)

lemma reachable_unique: "reachable d \<Longrightarrow> schedules_unique d"
proof (induction rule: reachable.induct)
  case init
  show ?case by (simp add: schedules_unique_def schedule_keys_def empty_db_def)
next
  case (mark d dateStr driverId type)
  then show ?case by (simp add: schedules_unique_handleScheduleUpdate)
next
  case (submit d selectedDriver selectedMonth selectedYear selectedDayOfWeek)
  then show ?case by (simp add: schedules_unique_handleSubmit)
next
  case (delete d tz patternId)
  then show ?case by (simp add: schedules_unique_handleDelete)
next
  case (assign d dateStr scheduleId replacementDriverId driverId shiftId)
  then show ?case by (simp add: schedules_unique_cong [OF schedules_handleAssignReplacement])
next
  case (update d dateStr replacementId newDriverId driverId scheduleId)
  then show ?case by (simp add: schedules_unique_cong [OF schedules_handleUpdateReplacement])
qed

lemma reachable_ids_unique: "reachable d \<Longrightarrow> schedule_ids_unique d"
proof (induction rule: reachable.induct)
  case init
  show ?case by (simp add: schedule_ids_unique_def empty_db_def)
next
  case (mark d dateStr driverId type)
  then show ?case by (simp add: schedule_ids_unique_handleScheduleUpdate)
next
  case (submit d selectedDriver selectedMonth selectedYear selectedDayOfWeek)
  then show ?case by (simp add: schedule_ids_unique_handleSubmit)
next
  case (delete d tz patternId)
  then show ?case by (simp add: schedule_ids_unique_handleDelete)
next
  case (assign d dateStr scheduleId replacementDriverId driverId shiftId)
  then show ?case by (simp add: schedule_ids_unique_cong [OF schedules_handleAssignReplacement])
next
  case (update d dateStr replacementId newDriverId driverId scheduleId)
  then show ?case by (simp add: schedule_ids_unique_cong [OF schedules_handleUpdateReplacement])
qed

text \<open>
  In a store that satisfies the constraint, the dialog inserts a schedule row only
  when no row of the driver and date exists: the lookup alone keeps the rows unique.
\<close>

lemma handleScheduleUpdate_inserts_new_key:
  assumes "schedules_unique d"
    and "data_of (maybeSingle
           (filter (\<lambda>r. s_driver_id r = driver \<and> s_date r = dt) (schedules d))) = None"
  shows "(driver, dt) \<notin> set (schedule_keys d)"
proof -
  have k: "filter (\<lambda>r. s_driver_id r = driver \<and> s_date r = dt) (schedules d) =
      filter (\<lambda>r. (s_driver_id r, s_date r) = (driver, dt)) (schedules d)"
    by simp
  have "distinct (map (\<lambda>r. (s_driver_id r, s_date r)) (schedules d))"
    using assms(1) by (simp add: schedules_unique_def schedule_keys_def)
  from filter_key_at_most_one [OF this, of "(driver, dt)"] assms(2)
  have "filter (\<lambda>r. (s_driver_id r, s_date r) = (driver, dt)) (schedules d) = []"
    unfolding k by auto
  then show ?thesis
    by (auto simp: schedule_keys_def filter_empty_conv)
qed

text \<open>Where a key or an id is unique, a write through it reaches its one row.\<close>

lemma map_through_unique:
  assumes "distinct (map f xs)" "r \<in> set xs"
  shows "map (\<lambda>x. if f x = f r then g x else x) xs = map (\<lambda>x. if x = r then g r else x) xs"
proof (rule map_cong [OF refl])
  fix x assume x: "x \<in> set xs"
  have "inj_on f (set xs)" using assms(1) by (simp add: distinct_map)
  then have "f x = f r \<longleftrightarrow> x = r" using x assms(2) by (auto dest: inj_onD)
  then show "(if f x = f r then g x else x) = (if x = r then g r else x)" by auto
qed

lemma upsert_day_off_in_place:
  assumes "schedules_unique d" "r \<in> set (schedules d)"
  shows "schedules (upsert_day_off (s_driver_id r) (s_date r) d) =
         map (\<lambda>x. if x = r then r\<lparr>is_day_off := True\<rparr> else x) (schedules d)"
proof -
  have k: "distinct (map (\<lambda>r. (s_driver_id r, s_date r)) (schedules d))"
    using assms(1) by (simp add: schedules_unique_def schedule_keys_def)
  have "schedules (upsert_day_off (s_driver_id r) (s_date r) d) =
      map (\<lambda>x. if (s_driver_id x, s_date x) = (s_driver_id r, s_date r)
                then x\<lparr>is_day_off := True\<rparr> else x) (schedules d)"
    using assms(2) by (simp add: upsert_day_off_def image_iff) blast
  then show ?thesis
    using map_through_unique [OF k assms(2), of "\<lambda>x. x\<lparr>is_day_off := True\<rparr>"] by simp
qed

lemma handleScheduleUpdate_in_place:
  assumes "schedules_unique d" "schedule_ids_unique d" "r \<in> set (schedules d)"
  shows "schedules (snd (handleScheduleUpdate d (s_date r) (s_driver_id r) ty)) =
         map (\<lambda>x. if x = r
               then r\<lparr>is_day_off := (if ty = day_off then \<not> is_day_off r else False),
                      is_annual_leave :=
                        (if ty = annual_leave then \<not> is_annual_leave r else False)\<rparr>
               else x) (schedules d)"
proof -
  have k: "distinct (map (\<lambda>r. (s_driver_id r, s_date r)) (schedules d))"
    using assms(1) by (simp add: schedules_unique_def schedule_keys_def)
  have i: "distinct (map s_id (schedules d))"
    using assms(2) by (simp add: schedule_ids_unique_def)
  have "filter (\<lambda>x. (s_driver_id x, s_date x) = (s_driver_id r, s_date r)) (schedules d) = [r]"
    by (rule filter_key_unique [OF k assms(3)])
  then have f: "filter (\<lambda>x. s_driver_id x = s_driver_id r \<and> s_date x = s_date r) (schedules d)
      = [r]" by simp
  let ?g = "\<lambda>x. x\<lparr>is_day_off := (if ty = day_off then \<not> is_day_off r else False),
        is_annual_leave := (if ty = annual_leave then \<not> is_annual_leave r else False)\<rparr>"
  have "schedules (snd (handleScheduleUpdate d (s_date r) (s_driver_id r) ty)) =
      map (\<lambda>x. if s_id x = s_id r then ?g x else x) (schedules d)"
    by (simp add: handleScheduleUpdate_def f update_schedule_flags_def)
  then show ?thesis
    using map_through_unique [OF i assms(3), of ?g] by simp
qed

text \<open>
  C8. In every state reachable through the handlers (marking, submitting a pattern with
  its expansion, deleting a pattern, assigning and updating a replacement) no two schedule
  rows have the same driver and date; and where a row of the driver and date exists, an
  insert for that key updates the row in place: after the trigger's insert the table is
  the same list of rows with the day-off flag set on that row, and after the dialog's
  marking it is the same list of rows with the two flags of that row set as the marking
  says. No row is added and no other row changes.
\<close>

theorem reachable_one_row_per_driver_and_date:
  assumes "reachable d"
  shows "distinct (schedule_keys d) \<and>
         (r \<in> set (schedules d) \<longrightarrow>
            schedules (upsert_day_off (s_driver_id r) (s_date r) d) =
              map (\<lambda>x. if x = r then r\<lparr>is_day_off := True\<rparr> else x) (schedules d) \<and>
            schedules (snd (handleScheduleUpdate d (s_date r) (s_driver_id r) ty)) =
              map (\<lambda>x. if x = r
                    then r\<lparr>is_day_off := (if ty = day_off then \<not> is_day_off r else False),
                           is_annual_leave :=
                             (if ty = annual_leave then \<not> is_annual_leave r else False)\<rparr>
                    else x) (schedules d))"
  using reachable_unique [OF assms] reachable_ids_unique [OF assms]
    upsert_day_off_in_place [of d r] handleScheduleUpdate_in_place [of d r ty]
  by (simp add: schedules_unique_def)

theorem reachable_one_row_per_driver_and_date_witness:
  "reachable leave_then_pattern \<and>
   schedules leave_then_pattern =
     [\<lparr>s_id = 1, s_driver_id = 1, s_date = feb1, is_day_off = True, is_annual_leave = True\<rparr>,
      \<lparr>s_id = 2, s_driver_id = 1, s_date = feb1 + 7, is_day_off = True, is_annual_leave = False\<rparr>,
      \<lparr>s_id = 3, s_driver_id = 1, s_date = feb1 + 14, is_day_off = True, is_annual_leave = False\<rparr>,
      \<lparr>s_id = 4, s_driver_id = 1, s_date = feb1 + 21, is_day_off = True, is_annual_leave = False\<rparr>,
      \<lparr>s_id = 5, s_driver_id = 1, s_date = feb1 + 28, is_day_off = True, is_annual_leave = False\<rparr>] \<and>
   distinct (schedule_keys leave_then_pattern) \<and>
   schedules (snd (handleScheduleUpdate leave_then_pattern feb1 1 annual_leave)) =
     [\<lparr>s_id = 1, s_driver_id = 1, s_date = feb1, is_day_off = False, is_annual_leave = False\<rparr>,
      \<lparr>s_id = 2, s_driver_id = 1, s_date = feb1 + 7, is_day_off = True, is_annual_leave = False\<rparr>,
      \<lparr>s_id = 3, s_driver_id = 1, s_date = feb1 + 14, is_day_off = True, is_annual_leave = False\<rparr>,
      \<lparr>s_id = 4, s_driver_id = 1, s_date = feb1 + 21, is_day_off = True, is_annual_leave = False\<rparr>,
      \<lparr>s_id = 5, s_driver_id = 1, s_date = feb1 + 28, is_day_off = True, is_annual_leave = False\<rparr>] \<and>
   schedules (upsert_day_off 1 (feb1 + 7) (snd (handleScheduleUpdate empty_db (feb1 + 7) 1
       annual_leave))) =
     [\<lparr>s_id = 1, s_driver_id = 1, s_date = feb1 + 7, is_day_off = True, is_annual_leave = True\<rparr>]"
proof -
  let ?r = "\<lparr>s_id = 1, s_driver_id = 1, s_date = feb1, is_day_off = True,
      is_annual_leave = True\<rparr>"
  let ?q = "\<lparr>s_id = 1, s_driver_id = 1, s_date = feb1 + 7, is_day_off = False,
      is_annual_leave = True\<rparr>"
  let ?e = "snd (handleScheduleUpdate empty_db (feb1 + 7) 1 annual_leave)"
  have r: "reachable leave_then_pattern"
    unfolding leave_then_pattern_def on_leave_def by (intro reachable.intros)
  have re: "reachable ?e" by (intro reachable.intros)
  have s: "schedules leave_then_pattern =
     [?r,
      \<lparr>s_id = 2, s_driver_id = 1, s_date = feb1 + 7, is_day_off = True, is_annual_leave = False\<rparr>,
      \<lparr>s_id = 3, s_driver_id = 1, s_date = feb1 + 14, is_day_off = True, is_annual_leave = False\<rparr>,
      \<lparr>s_id = 4, s_driver_id = 1, s_date = feb1 + 21, is_day_off = True, is_annual_leave = False\<rparr>,
      \<lparr>s_id = 5, s_driver_id = 1, s_date = feb1 + 28, is_day_off = True, is_annual_leave = False\<rparr>]"
    by code_simp
  have se: "schedules ?e = [?q]" by code_simp
  have m: "?r \<in> set (schedules leave_then_pattern)" unfolding s by simp
  have me: "?q \<in> set (schedules ?e)" unfolding se by simp
  note t = reachable_one_row_per_driver_and_date [OF r, of ?r annual_leave]
  note u = reachable_one_row_per_driver_and_date [OF re, of ?q annual_leave]
  from t have d: "distinct (schedule_keys leave_then_pattern)" by (rule conjunct1)
  from t m have "schedules (snd (handleScheduleUpdate leave_then_pattern (s_date ?r)
        (s_driver_id ?r) annual_leave)) =
      map (\<lambda>x. if x = ?r
            then ?r\<lparr>is_day_off := (if annual_leave = day_off then \<not> is_day_off ?r else False),
                    is_annual_leave :=
                      (if annual_leave = annual_leave then \<not> is_annual_leave ?r else False)\<rparr>
            else x) (schedules leave_then_pattern)"
    by blast
  then have h: "schedules (snd (handleScheduleUpdate leave_then_pattern feb1 1 annual_leave)) =
     [\<lparr>s_id = 1, s_driver_id = 1, s_date = feb1, is_day_off = False, is_annual_leave = False\<rparr>,
      \<lparr>s_id = 2, s_driver_id = 1, s_date = feb1 + 7, is_day_off = True, is_annual_leave = False\<rparr>,
      \<lparr>s_id = 3, s_driver_id = 1, s_date = feb1 + 14, is_day_off = True, is_annual_leave = False\<rparr>,
      \<lparr>s_id = 4, s_driver_id = 1, s_date = feb1 + 21, is_day_off = True, is_annual_leave = False\<rparr>,
      \<lparr>s_id = 5, s_driver_id = 1, s_date = feb1 + 28, is_day_off = True, is_annual_leave = False\<rparr>]"
    unfolding s by simp
  from u me have "schedules (upsert_day_off (s_driver_id ?q) (s_date ?q) ?e) =
      map (\<lambda>x. if x = ?q then ?q\<lparr>is_day_off := True\<rparr> else x) (schedules ?e)"
    by blast
  then have p: "schedules (upsert_day_off 1 (feb1 + 7) ?e) =
     [\<lparr>s_id = 1, s_driver_id = 1, s_date = feb1 + 7, is_day_off = True, is_annual_leave = True\<rparr>]"
    unfolding se by simp
  show ?thesis using r s d h p by blast
qed

section \<open>The constraints hold in every reachable state\<close>

lemma patterns_run_triggers:
  "run_triggers ps d = Inr d' \<Longrightarrow> driver_monthly_dayoff d' = driver_monthly_dayoff d"
  by (induction ps arbitrary: d) (auto split: sum.splits dest: patterns_trigger)

lemma patterns_unique_set_pattern:
  assumes "patterns_unique d" "set_pattern d driver m y k = Inr d'"
  shows "patterns_unique d'"
proof -
  let ?ps = "driver_monthly_dayoff d"
  have ids: "distinct (map p_id ?ps)"
    and keys: "distinct (map (\<lambda>p. (p_driver_id p, p_month p, p_year p)) ?ps)"
    using assms(1) by (simp_all add: patterns_unique_def)
  have i: "int4 m \<and> int4 y"
    using assms(2) by (auto simp: set_pattern_def split: if_splits)
  from pattern_rows_cases [OF assms(1), of driver y m]
  show ?thesis
  proof (elim disjE exE)
    assume e: "pattern_rows d driver y m = []"
    then have ins: "insert_pattern d driver m y k = Inr d'"
      using assms(2) i by (simp add: set_pattern_def pattern_rows_def)
    have nk: "(driver, m, y) \<notin> set (map (\<lambda>p. (p_driver_id p, p_month p, p_year p)) ?ps)"
      using e by (auto simp: pattern_rows_def filter_empty_conv)
    let ?NEW = "\<lparr>p_id = gen_random_uuid (map p_id ?ps), p_driver_id = driver,
              p_month = m, p_year = y, day_of_week = k\<rparr>"
    have "create_monthly_dayoff_schedules ?NEW (d\<lparr>driver_monthly_dayoff := ?ps @ [?NEW]\<rparr>)
        = Inr d'"
      using ins nk by (auto simp: insert_pattern_def Let_def split: if_splits)
    then have "driver_monthly_dayoff d' = ?ps @ [?NEW]"
      by (auto dest: patterns_trigger)
    then show ?thesis
      using ids keys nk gen_random_uuid_fresh [of "map p_id ?ps"]
      by (simp add: patterns_unique_def)
  next
    fix p assume e: "pattern_rows d driver y m = [p]"
    then have upd: "update_pattern d (p_id p) k = Inr d'"
      using assms(2) i by (simp add: set_pattern_def pattern_rows_def)
    have "driver_monthly_dayoff d' =
        map (\<lambda>q. if p_id q = p_id p then q\<lparr>day_of_week := k\<rparr> else q) ?ps"
      using upd by (auto simp: update_pattern_def split: if_splits dest: patterns_run_triggers)
    then show ?thesis
      using ids keys by (simp only: patterns_unique_def map_update_day_keeps)
  qed
qed

lemma patterns_unique_handleSubmit:
  assumes "patterns_unique d"
  shows "patterns_unique (snd (handleSubmit d sd sm sy sk))"
  using assms patterns_unique_set_pattern [OF assms]
  by (auto simp: handleSubmit_def split: option.splits sum.splits)

lemma patterns_unique_handleDelete:
  assumes "patterns_unique d"
  shows "patterns_unique (snd (handleDelete tz d pid))"
  using assms
  by (simp add: handleDelete_def Let_def delete_schedules_def patterns_unique_def
      distinct_map_filter split: option.splits sum.splits)

lemma patterns_handleScheduleUpdate [simp]:
  "driver_monthly_dayoff (snd (handleScheduleUpdate d dt driver ty)) = driver_monthly_dayoff d"
  by (simp add: handleScheduleUpdate_def update_schedule_flags_def insert_schedule_def
      split: option.splits)

lemma patterns_accrue_overtime [simp]:
  "driver_monthly_dayoff (accrue_overtime d b dt) = driver_monthly_dayoff d"
  by (simp add: accrue_overtime_def update_overtime_hours_def insert_overtime_def
      split: option.splits)

lemma patterns_handleAssignReplacement [simp]:
  "driver_monthly_dayoff (snd (handleAssignReplacement d dt s b a sh)) = driver_monthly_dayoff d"
  by (simp add: handleAssignReplacement_def insert_replacement_def)

lemma patterns_handleUpdateReplacement [simp]:
  "driver_monthly_dayoff (snd (handleUpdateReplacement d dt rid b a s)) = driver_monthly_dayoff d"
  by (simp add: handleUpdateReplacement_def update_replacement_driver_def delete_overtime_def
      Let_def split: option.splits)

lemma reachable_patterns_unique: "reachable d \<Longrightarrow> patterns_unique d"
proof (induction rule: reachable.induct)
  case init
  show ?case by (simp add: patterns_unique_def empty_db_def)
next
  case (submit d selectedDriver selectedMonth selectedYear selectedDayOfWeek)
  then show ?case by (simp add: patterns_unique_handleSubmit)
next
  case (delete d tz patternId)
  then show ?case by (simp add: patterns_unique_handleDelete)
qed (simp_all add: patterns_unique_def)

text \<open>
  The form hands its selections to the storage part: when the three numerals parse, the
  handler's result is that of \<open>set_pattern\<close>.
\<close>

lemma handleSubmit_set_pattern:
  assumes "parseInt sm = Some m" "parseInt sy = Some y" "dayOfWeek sk = Some k"
    and "set_pattern d driver m y k = Inr d'"
  shows "handleSubmit d (Some driver) sm sy sk = (ToastSuccess, d')"
proof -
  have "sm \<noteq> []" "sy \<noteq> []" "sk \<noteq> []"
    using assms(1-3) by (auto simp: parseInt_def dayOfWeek_def split: if_splits)
  then show ?thesis using assms by (simp add: handleSubmit_def)
qed

section \<open>The form's day of the week\<close>

text \<open>
  C5 asks that the stored \<^verbatim>\<open>day_of_week\<close> is the number of the selected weekday in the
  trigger's numbering, 0 for Sunday to 6 for Saturday. The values of \<^verbatim>\<open>DAYS_OF_WEEK\<close> are
  one less, with 6 for Sunday, and the conversion of "7" never applies. Selecting Sunday
  for February 2024 stores 6, and the trigger marks the four Saturdays, 3, 10, 17 and 24
  February.
\<close>

theorem form_stores_weekday_shifted:
  "map (\<lambda>label. dayOfWeek (select_day label))
     [''Sunday'', ''Monday'', ''Tuesday'', ''Wednesday'', ''Thursday'', ''Friday'',
      ''Saturday'']
     = [Some 6, Some 0, Some 1, Some 2, Some 3, Some 4, Some 5] \<and>
   map day_of_week (driver_monthly_dayoff sunday_selected) = [6] \<and>
   map (\<lambda>r. (s_date r - feb1 + 1, j2day (s_date r))) (schedules sunday_selected)
     = [(3, 6), (10, 6), (17, 6), (24, 6)]"
  by code_simp

section \<open>Day off and annual leave\<close>

text \<open>The dialog keeps day off and annual leave apart.\<close>

lemma handleScheduleUpdate_keeps_exclusive:
  assumes "flags_exclusive d"
  shows "flags_exclusive (snd (handleScheduleUpdate d dt driver ty))"
proof (cases "data_of (maybeSingle
      (filter (\<lambda>r. s_driver_id r = driver \<and> s_date r = dt) (schedules d)))")
  case None
  then show ?thesis
    using assms
    by (cases ty) (auto simp: handleScheduleUpdate_def flags_exclusive_def insert_schedule_def
        filter_empty_conv)
next
  case (Some r)
  then show ?thesis
    using assms
    by (cases ty) (auto simp: handleScheduleUpdate_def flags_exclusive_def
        update_schedule_flags_def filter_empty_conv)
qed

text \<open>
  C9 asks that no reachable schedule row is both a day off and annual leave. Driver 1 is
  marked on annual leave on Thursday 1 February 2024 in the dialog; a pattern with stored
  day 4 for February 2024 is then submitted. The trigger's upsert finds the row and sets
  \<^verbatim>\<open>is_day_off\<close> without clearing \<^verbatim>\<open>is_annual_leave\<close>: the row carries both flags.
\<close>

theorem pattern_over_annual_leave_sets_both_flags:
  "reachable leave_then_pattern \<and>
   filter (\<lambda>r. is_day_off r \<and> is_annual_leave r) (schedules leave_then_pattern)
     = [\<lparr>s_id = 1, s_driver_id = 1, s_date = feb1, is_day_off = True,
         is_annual_leave = True\<rparr>]"
proof
  show "reachable leave_then_pattern"
    unfolding leave_then_pattern_def on_leave_def by (intro reachable.intros)
  show "filter (\<lambda>r. is_day_off r \<and> is_annual_leave r) (schedules leave_then_pattern)
     = [\<lparr>s_id = 1, s_driver_id = 1, s_date = feb1, is_day_off = True,
         is_annual_leave = True\<rparr>]"
    by code_simp
qed

section \<open>The date range of Delete Pattern\<close>

lemma julian_low:
  fixes Y a c q t M :: int
  assumes "Y < 4 * a + 4" "100 * c \<le> Y" "c < 4 * q + 4" "7834 * M < 256 * t + 256"
    and "4899 \<le> Y" "4 \<le> M"
  shows "1721426 \<le> Y * 365 - 32167 + (a - c + q) + t + 1"
  using assms by linarith

lemma julian_high:
  fixes Y a c q t M :: int
  assumes "4 * a \<le> Y" "Y < 100 * c + 100" "4 * q \<le> c" "256 * t \<le> 7834 * M"
    and "Y \<le> 14799 \<and> M \<le> 13 \<or> Y \<le> 14798 \<and> M \<le> 15"
  shows "Y * 365 - 32167 + (a - c + q) + t + 1 < 5373485"
  using assms by linarith

text \<open>The first of a month of the years 100 to 9999 is printed with a four-digit year.\<close>

lemma date2j_four_digits:
  assumes "100 \<le> y" "y \<le> 9999" "1 \<le> m" "m \<le> 12"
  shows "1721426 \<le> date2j y m 1" and "date2j y m 1 < 5373485"
proof -
  show "1721426 \<le> date2j y m 1"
  proof (cases "m > 2")
    case True
    let ?Y = "y + 4800" and ?M = "m + 1"
    have "1721426 \<le> ?Y * 365 - 32167 + (?Y div 4 - ?Y div 100 + ?Y div 100 div 4)
        + 7834 * ?M div 256 + 1"
    proof (rule julian_low [of ?Y _ _ _ ?M])
      show "?Y < 4 * (?Y div 4) + 4" by (rule div_bounds(2) [OF pos_4])
      show "100 * (?Y div 100) \<le> ?Y" by (rule div_bounds(1) [OF pos_100])
      show "?Y div 100 < 4 * (?Y div 100 div 4) + 4" by (rule div_bounds(2) [OF pos_4])
      show "7834 * ?M < 256 * (7834 * ?M div 256) + 256" by (rule div_bounds(2) [OF pos_256])
      show "4899 \<le> ?Y" using assms by linarith
      show "4 \<le> ?M" using assms True by linarith
    qed
    then show ?thesis by (simp only: date2j_def Let_def True if_True)
  next
    case False
    let ?Y = "y + 4799" and ?M = "m + 13"
    have "1721426 \<le> ?Y * 365 - 32167 + (?Y div 4 - ?Y div 100 + ?Y div 100 div 4)
        + 7834 * ?M div 256 + 1"
    proof (rule julian_low [of ?Y _ _ _ ?M])
      show "?Y < 4 * (?Y div 4) + 4" by (rule div_bounds(2) [OF pos_4])
      show "100 * (?Y div 100) \<le> ?Y" by (rule div_bounds(1) [OF pos_100])
      show "?Y div 100 < 4 * (?Y div 100 div 4) + 4" by (rule div_bounds(2) [OF pos_4])
      show "7834 * ?M < 256 * (7834 * ?M div 256) + 256" by (rule div_bounds(2) [OF pos_256])
      show "4899 \<le> ?Y" using assms by linarith
      show "4 \<le> ?M" using assms by linarith
    qed
    then show ?thesis by (simp only: date2j_def Let_def False if_False)
  qed
  show "date2j y m 1 < 5373485"
  proof (cases "m > 2")
    case True
    let ?Y = "y + 4800" and ?M = "m + 1"
    have "?Y * 365 - 32167 + (?Y div 4 - ?Y div 100 + ?Y div 100 div 4)
        + 7834 * ?M div 256 + 1 < 5373485"
    proof (rule julian_high [of _ ?Y _ _ _ ?M])
      show "4 * (?Y div 4) \<le> ?Y" by (rule div_bounds(1) [OF pos_4])
      show "?Y < 100 * (?Y div 100) + 100" by (rule div_bounds(2) [OF pos_100])
      show "4 * (?Y div 100 div 4) \<le> ?Y div 100" by (rule div_bounds(1) [OF pos_4])
      show "256 * (7834 * ?M div 256) \<le> 7834 * ?M" by (rule div_bounds(1) [OF pos_256])
      show "?Y \<le> 14799 \<and> ?M \<le> 13 \<or> ?Y \<le> 14798 \<and> ?M \<le> 15" using assms True by linarith
    qed
    then show ?thesis by (simp only: date2j_def Let_def True if_True)
  next
    case False
    let ?Y = "y + 4799" and ?M = "m + 13"
    have "?Y * 365 - 32167 + (?Y div 4 - ?Y div 100 + ?Y div 100 div 4)
        + 7834 * ?M div 256 + 1 < 5373485"
    proof (rule julian_high [of _ ?Y _ _ _ ?M])
      show "4 * (?Y div 4) \<le> ?Y" by (rule div_bounds(1) [OF pos_4])
      show "?Y < 100 * (?Y div 100) + 100" by (rule div_bounds(2) [OF pos_100])
      show "4 * (?Y div 100 div 4) \<le> ?Y div 100" by (rule div_bounds(1) [OF pos_4])
      show "256 * (7834 * ?M div 256) \<le> 7834 * ?M" by (rule div_bounds(1) [OF pos_256])
      show "?Y \<le> 14799 \<and> ?M \<le> 13 \<or> ?Y \<le> 14798 \<and> ?M \<le> 15" using assms False by linarith
    qed
    then show ?thesis by (simp only: date2j_def Let_def False if_False)
  qed
qed

lemma julian_constants:
  "date2j 1970 1 1 = 2440588" "date2j 0 1 1 = 1721060" "date2j 1 1 1 = 1721426"
  "date2j 10000 1 1 = 5373485"
  by (simp_all add: date2j_def)

lemma last_of_month_four_digits:
  assumes "100 \<le> y" "y \<le> 9999" "1 \<le> m" "m \<le> 12"
  shows "date2j y m 1 \<le> first_of_next_month y m - 1"
    and "first_of_next_month y m - 1 < 5373485"
proof -
  have "first_of_next_month y m - 1 = date2j y m 1 + (day_tab y m - 1)"
    using last_day_eq [OF assms(3,4), of y] date2j_day [of y m "day_tab y m"] by simp
  then show "date2j y m 1 \<le> first_of_next_month y m - 1"
    using day_tab_pos [of y m] by simp
  show "first_of_next_month y m - 1 < 5373485"
  proof (cases "m = 12")
    case True
    show ?thesis
    proof (cases "y = 9999")
      case True
      with \<open>m = 12\<close> show ?thesis by (simp add: first_of_next_month_def julian_constants)
    next
      case False
      then show ?thesis
        using \<open>m = 12\<close> date2j_four_digits(2) [of "y + 1" 1] assms
        by (simp add: first_of_next_month_def)
    qed
  next
    case False
    then show ?thesis
      using date2j_four_digits(2) [of y "m + 1"] assms by (simp add: first_of_next_month_def)
  qed
qed

text \<open>
  In a browser whose time zone is not east of UTC, and for a pattern of the years 100 to
  9999, the two bounds are the first and the last day of the month, and nothing of the
  pattern is left.
\<close>

lemma toISOString_date_west:
  assumes "- 1440 < tz" "tz \<le> 0" "1721426 \<le> D" "D < 5373485"
  shows "toISOString_date (D * 1440 - tz) = Inr D" and "date_in D = Inr D"
proof -
  have "(D * 1440 - tz) div 1440 = D"
    by (rule int_div_pos_eq [of _ _ _ "- tz"]) (use assms in simp_all)
  moreover have "valid_time (D * 1440 - tz)"
    using assms by (simp add: valid_time_def julian_constants)
  ultimately show "toISOString_date (D * 1440 - tz) = Inr D"
    by (simp add: toISOString_date_def)
  show "date_in D = Inr D"
    using assms by (simp add: date_in_def julian_constants)
qed

lemma js_month_bounds_west:
  assumes "1 \<le> m" "m \<le> 12" "100 \<le> y"
  shows "js_Date tz y (m - 1) 1 = date2j y m 1 * 1440 - tz"
    and "js_Date tz y m 0 = (first_of_next_month y m - 1) * 1440 - tz"
proof -
  have y: "js_year y = y" using assms(3) by (simp add: js_year_def)
  have a: "(m - 1) div 12 = 0" "(m - 1) mod 12 + 1 = m" using assms(1,2) by simp_all
  show "js_Date tz y (m - 1) 1 = date2j y m 1 * 1440 - tz"
    unfolding js_Date_def a y by simp
  show "js_Date tz y m 0 = (first_of_next_month y m - 1) * 1440 - tz"
  proof (cases "m = 12")
    case True
    then show ?thesis by (simp add: js_Date_def first_of_next_month_def y)
  next
    case False
    then have b: "m div 12 = 0" "m mod 12 + 1 = m + 1" using assms(1,2) by simp_all
    show ?thesis unfolding js_Date_def b y using False by (simp add: first_of_next_month_def)
  qed
qed

lemma handleDelete_west_of_utc:
  assumes "patterns_unique d" "p \<in> set (driver_monthly_dayoff d)"
    and "1 \<le> p_month p" "p_month p \<le> 12" "100 \<le> p_year p" "p_year p \<le> 9999"
    and "- 1440 < tz" "tz \<le> 0"
  shows "fst (handleDelete tz d (p_id p)) = ToastSuccess"
    and "day_off_rows (snd (handleDelete tz d (p_id p))) (p_driver_id p) (p_year p) (p_month p) = []"
    and "pattern_rows (snd (handleDelete tz d (p_id p))) (p_driver_id p) (p_year p) (p_month p) = []"
proof -
  let ?y = "p_year p" and ?m = "p_month p"
  have ids: "distinct (map p_id (driver_monthly_dayoff d))"
    and keys: "distinct (map (\<lambda>p. (p_driver_id p, p_month p, p_year p)) (driver_monthly_dayoff d))"
    using assms(1) by (simp_all add: patterns_unique_def)
  have f: "filter (\<lambda>q. p_id q = p_id p) (driver_monthly_dayoff d) = [p]"
    by (rule filter_key_unique [OF ids assms(2)])
  note j = js_month_bounds_west [OF assms(3,4,5), of tz]
  note w = date2j_four_digits [OF assms(5,6,3,4)]
  note l = last_of_month_four_digits [OF assms(5,6,3,4)]
  have lo: "toISOString_date (js_Date tz ?y (?m - 1) 1) = Inr (date2j ?y ?m 1)"
    "date_in (date2j ?y ?m 1) = Inr (date2j ?y ?m 1)"
    unfolding j using toISOString_date_west [OF assms(7,8) w] by simp_all
  have "1721426 \<le> first_of_next_month ?y ?m - 1" using w(1) l(1) by linarith
  then have hi: "toISOString_date (js_Date tz ?y ?m 0) = Inr (first_of_next_month ?y ?m - 1)"
    "date_in (first_of_next_month ?y ?m - 1) = Inr (first_of_next_month ?y ?m - 1)"
    unfolding j using toISOString_date_west [OF assms(7,8) _ l(2)] by simp_all
  have a: "astronomical ?y = ?y" using assms(5) by (simp add: astronomical_def)
  have c: "civil_date ?y ?m 1 = date2j ?y ?m 1"
    "civil_date ?y ?m (days_in_month ?y ?m) = first_of_next_month ?y ?m - 1"
    using last_day_eq [OF assms(3,4), of ?y] by (simp_all add: civil_date_def days_in_month_def a)
  let ?P = "\<lambda>r. s_driver_id r = p_driver_id p \<and> is_day_off r
       \<and> date2j ?y ?m 1 \<le> s_date r \<and> s_date r \<le> first_of_next_month ?y ?m - 1"
  have res: "handleDelete tz d (p_id p) =
      (ToastSuccess, (delete_schedules ?P d)\<lparr>driver_monthly_dayoff :=
         filter (\<lambda>q. p_id q \<noteq> p_id p) (driver_monthly_dayoff (delete_schedules ?P d))\<rparr>)"
    by (simp add: handleDelete_def f lo hi Let_def)
  show "fst (handleDelete tz d (p_id p)) = ToastSuccess" unfolding res by simp
  show "day_off_rows (snd (handleDelete tz d (p_id p))) (p_driver_id p) (p_year p) (p_month p) = []"
    unfolding res
    by (auto simp: day_off_rows_def driver_month_rows_def delete_schedules_def
        filter_empty_conv in_month_def c)
  have kf: "filter (\<lambda>q. (p_driver_id q, p_month q, p_year q) =
      (p_driver_id p, p_month p, p_year p)) (driver_monthly_dayoff d) = [p]"
    by (rule filter_key_unique [OF keys assms(2)])
  have "\<forall>q \<in> set (driver_monthly_dayoff d).
      (p_driver_id q, p_month q, p_year q) = (p_driver_id p, p_month p, p_year p) \<longrightarrow> q = p"
  proof (intro ballI impI)
    fix q assume "q \<in> set (driver_monthly_dayoff d)"
      "(p_driver_id q, p_month q, p_year q) = (p_driver_id p, p_month p, p_year p)"
    then have "q \<in> set (filter (\<lambda>q. (p_driver_id q, p_month q, p_year q) =
      (p_driver_id p, p_month p, p_year p)) (driver_monthly_dayoff d))" by simp
    then show "q = p" unfolding kf by simp
  qed
  then show "pattern_rows (snd (handleDelete tz d (p_id p))) (p_driver_id p) (p_year p)
      (p_month p) = []"
    unfolding res
    by (auto simp: pattern_rows_def delete_schedules_def filter_empty_conv)
qed

text \<open>
  A pattern of a year that is printed with a sign, or that is no time value of the
  browser, is not deleted: the handler reports an error and writes nothing.
\<close>

lemma handleDelete_year_out_of_range:
  "handleDelete 0 (d\<lparr>driver_monthly_dayoff :=
       [\<lparr>p_id = 1, p_driver_id = 1, p_month = 2, p_year = 12024, day_of_week = 4\<rparr>]\<rparr>) 1
     = (ToastError, d\<lparr>driver_monthly_dayoff :=
       [\<lparr>p_id = 1, p_driver_id = 1, p_month = 2, p_year = 12024, day_of_week = 4\<rparr>]\<rparr>)"
  "handleDelete 0 (d\<lparr>driver_monthly_dayoff :=
       [\<lparr>p_id = 1, p_driver_id = 1, p_month = 2, p_year = 280000, day_of_week = 4\<rparr>]\<rparr>) 1
     = (ToastError, d\<lparr>driver_monthly_dayoff :=
       [\<lparr>p_id = 1, p_driver_id = 1, p_month = 2, p_year = 280000, day_of_week = 4\<rparr>]\<rparr>)"
  by (simp_all add: handleDelete_def js_Date_def js_year_def toISOString_date_def
      valid_time_def date_in_def date2j_def Let_def)

text \<open>
  C6 asks that Delete Pattern leaves no day-off row of the driver in the month. In a
  browser seven hours east of UTC the two bounds are printed as 31 January and
  28 February: after deleting the pattern of driver 1 for February 2024, whose rows are
  1, 8, 15, 22 and 29 February, the pattern row is gone and the day-off row of
  29 February is still there.
\<close>

theorem delete_pattern_east_of_utc_keeps_last_day:
  "map (\<lambda>r. s_date r - feb1 + 1) (day_off_rows thursday_pattern 1 2024 2)
     = [1, 8, 15, 22, 29] \<and>
   map p_id (pattern_rows thursday_pattern 1 2024 2) = [1] \<and>
   fst (handleDelete bangkok thursday_pattern 1) = ToastSuccess \<and>
   pattern_rows (snd (handleDelete bangkok thursday_pattern 1)) 1 2024 2 = [] \<and>
   map (\<lambda>r. s_date r - feb1 + 1)
     (day_off_rows (snd (handleDelete bangkok thursday_pattern 1)) 1 2024 2) = [29]"
  by code_simp

end
